theory Spec2Isabelle
  imports Main "HOL-Library.Extended_Nat" "HOL-Library.While_Combinator" "HOL-Library.Sublist"
begin

section \<open>Node objects and the object heap\<close>

text \<open>
  A JavaScript \<open>Node\<close> object is a record; object identity is an address into a heap
  of nodes, so that \<open>grid.startNode\<close>, \<open>node.parent\<close> and the entries of the open and
  closed sets are references, as in the source. The DOM \<open>element\<close> of a node and
  \<open>updateVisualState\<close> only paint the screen and are left out. \<open>g\<close> and \<open>f\<close> are numbers
  or \<open>Infinity\<close>: extended naturals.
\<close>

type_synonym addr = nat

record node =
  row :: int
  col :: int
  isWall :: bool
  isStart :: bool
  isEnd :: bool
  isVisited :: bool
  isPath :: bool
  weight :: nat
  g :: enat
  h :: nat
  f :: enat
  parent :: "addr option"
  wallType :: "nat option"

definition new_Node :: "int \<Rightarrow> int \<Rightarrow> node" where
  "new_Node r c = \<lparr> row = r, col = c, isWall = False, isStart = False, isEnd = False,
     isVisited = False, isPath = False, weight = 1, g = \<infinity>, h = 0, f = \<infinity>,
     parent = None, wallType = None \<rparr>"

definition Node_reset :: "node \<Rightarrow> node" where
  "Node_reset n = n\<lparr> isVisited := False, isPath := False, g := \<infinity>, h := 0, f := \<infinity>,
     parent := None \<rparr>"

definition calculateHeuristic :: "node \<Rightarrow> node \<Rightarrow> nat" where
  "calculateHeuristic n e = nat \<bar>col n - col e\<bar> + nat \<bar>row n - row e\<bar>"

definition toggleWall :: "node \<Rightarrow> node" where
  "toggleWall n = (if \<not> isStart n \<and> \<not> isEnd n then n\<lparr> isWall := \<not> isWall n \<rparr> else n)"

definition setAsStart :: "node \<Rightarrow> node" where
  "setAsStart n = n\<lparr> isStart := True, isEnd := False, isWall := False \<rparr>"

definition setAsEnd :: "node \<Rightarrow> node" where
  "setAsEnd n = n\<lparr> isEnd := True, isStart := False, isWall := False \<rparr>"

section \<open>The Grid object\<close>

text \<open>
  \<open>rows\<close> and \<open>cols\<close> are JavaScript numbers that \<open>resize\<close> stores unchecked, so they may
  be \<open>undefined\<close> (\<open>None\<close>). A reference is \<open>null\<close>, \<open>undefined\<close> or the address of a
  node object. \<open>nodes\<close> is the array of arrays of node references.
\<close>

datatype ref = Null | Undefined | Ref addr

datatype mode = WallMode | StartMode | EndMode

datatype error = TypeError

record grid =
  heap :: "addr \<Rightarrow> node"
  nextAddr :: addr
  rows :: "int option"
  cols :: "int option"
  nodes :: "addr list list"
  startNode :: ref
  endNode :: ref
  mouseIsPressed :: bool
  currentMode :: mode

text \<open>A method either returns or throws; a throw keeps the mutations made so far.\<close>

datatype outcome = Returns grid | Throws error grid

definition updNode :: "grid \<Rightarrow> addr \<Rightarrow> (node \<Rightarrow> node) \<Rightarrow> grid" where
  "updNode w a upd = w\<lparr> heap := (heap w)(a := upd (heap w a)) \<rparr>"

text \<open>
  \<open>xs[i]\<close> for a number \<open>i\<close> that may be \<open>NaN\<close> or \<open>undefined\<close> (\<open>None\<close>): out of range
  the result is \<open>undefined\<close> (\<open>None\<close>).
\<close>

definition arr_get :: "'a list \<Rightarrow> int option \<Rightarrow> 'a option" where
  "arr_get xs i = (case i of None \<Rightarrow> None
     | Some k \<Rightarrow> if 0 \<le> k \<and> k < int (length xs) then Some (xs ! nat k) else None)"

text \<open>The number of rounds of \<open>for (i = 0; i < n; i++)\<close>; none when \<open>n\<close> is \<open>undefined\<close>.\<close>

definition rounds :: "int option \<Rightarrow> nat" where
  "rounds n = (case n of None \<Rightarrow> 0 | Some k \<Rightarrow> nat k)"

text \<open>\<open>Math.floor(k * n / 4)\<close>, \<open>NaN\<close> when \<open>n\<close> is \<open>undefined\<close>.\<close>

definition floorQuarter :: "int \<Rightarrow> int option \<Rightarrow> int option" where
  "floorQuarter k n = map_option (\<lambda>v. (k * v) div 4) n"

text \<open>
  \<open>initializeGrid\<close>: a fresh array of fresh nodes; \<open>new Node\<close> takes the next free address.
  The assignment \<open>this.nodes[row][col] = new Node(row, col)\<close> appends, since \<open>col\<close> is
  the length of the row at that moment.
\<close>

definition newCell :: "nat \<Rightarrow> nat \<Rightarrow> grid \<Rightarrow> grid" where
  "newCell r c w = w\<lparr> heap := (heap w)(nextAddr w := new_Node (int r) (int c)),
     nextAddr := Suc (nextAddr w),
     nodes := butlast (nodes w) @ [last (nodes w) @ [nextAddr w]] \<rparr>"

definition newRow :: "nat \<Rightarrow> nat \<Rightarrow> grid \<Rightarrow> grid" where
  "newRow n r w = fold (newCell r) [0..<n] (w\<lparr> nodes := nodes w @ [[]] \<rparr>)"

definition initializeGrid :: "grid \<Rightarrow> grid" where
  "initializeGrid w = fold (newRow (rounds (cols w))) [0..<rounds (rows w)] (w\<lparr> nodes := [] \<rparr>)"

definition setStartNode :: "grid \<Rightarrow> int option \<Rightarrow> int option \<Rightarrow> outcome" where
  "setStartNode w r c =
    (let w1 = (case startNode w of Ref a \<Rightarrow> updNode w a (\<lambda>n. n\<lparr> isStart := False \<rparr>) | _ \<Rightarrow> w)
     in case arr_get (nodes w1) r of
          None \<Rightarrow> Throws TypeError w1
        | Some rw \<Rightarrow>
            (case arr_get rw c of
               None \<Rightarrow> Throws TypeError (w1\<lparr> startNode := Undefined \<rparr>)
             | Some a \<Rightarrow> Returns (updNode (w1\<lparr> startNode := Ref a \<rparr>) a setAsStart)))"

definition setEndNode :: "grid \<Rightarrow> int option \<Rightarrow> int option \<Rightarrow> outcome" where
  "setEndNode w r c =
    (let w1 = (case endNode w of Ref a \<Rightarrow> updNode w a (\<lambda>n. n\<lparr> isEnd := False \<rparr>) | _ \<Rightarrow> w)
     in case arr_get (nodes w1) r of
          None \<Rightarrow> Throws TypeError w1
        | Some rw \<Rightarrow>
            (case arr_get rw c of
               None \<Rightarrow> Throws TypeError (w1\<lparr> endNode := Undefined \<rparr>)
             | Some a \<Rightarrow> Returns (updNode (w1\<lparr> endNode := Ref a \<rparr>) a setAsEnd)))"

definition setDefaultStartEnd :: "grid \<Rightarrow> outcome" where
  "setDefaultStartEnd w =
    (case setStartNode w (floorQuarter 1 (rows w)) (floorQuarter 1 (cols w)) of
       Throws e w' \<Rightarrow> Throws e w'
     | Returns w' \<Rightarrow> setEndNode w' (floorQuarter 3 (rows w')) (floorQuarter 3 (cols w')))"

text \<open>
  \<open>new Grid(rows, cols)\<close>, on an empty heap. The constructor is declared
  \<open>constructor(rows = 10, cols = 10)\<close>: an argument that is missing or \<open>undefined\<close>
  (\<open>None\<close>) takes the default 10.
\<close>

definition defaultArg :: "int option \<Rightarrow> int \<Rightarrow> int option" where
  "defaultArg x d = (case x of None \<Rightarrow> Some d | Some v \<Rightarrow> Some v)"

definition new_Grid :: "int option \<Rightarrow> int option \<Rightarrow> outcome" where
  "new_Grid r c = setDefaultStartEnd (initializeGrid
     \<lparr> heap = (\<lambda>_. new_Node 0 0), nextAddr = 0, rows = defaultArg r 10, cols = defaultArg c 10,
       nodes = [], startNode = Null, endNode = Null, mouseIsPressed = False,
       currentMode = WallMode \<rparr>)"

text \<open>
  \<open>getNode\<close>: the bounds test is on \<open>rows\<close> and \<open>cols\<close>; the read \<open>this.nodes[row][col]\<close>
  throws when the row is missing and is \<open>undefined\<close> when the column is.
\<close>

definition getNode :: "grid \<Rightarrow> int \<Rightarrow> int \<Rightarrow> error + addr option" where
  "getNode w r c =
    (if 0 \<le> r \<and> (case rows w of None \<Rightarrow> False | Some R \<Rightarrow> r < R)
        \<and> 0 \<le> c \<and> (case cols w of None \<Rightarrow> False | Some C \<Rightarrow> c < C)
     then (case arr_get (nodes w) (Some r) of
             None \<Rightarrow> Inl TypeError
           | Some rw \<Rightarrow> Inr (arr_get rw (Some c)))
     else Inr None)"

text \<open>
  The double loop \<open>for row < rows, for col < cols\<close> over \<open>this.nodes[row][col]\<close>, with a
  body that works on the node read: the cell positions in row-major order, and a throw
  when the read gives no node.
\<close>

definition cellPositions :: "grid \<Rightarrow> (nat \<times> nat) list" where
  "cellPositions w = concat (map (\<lambda>r. map (\<lambda>c. (r, c)) [0..<rounds (cols w)]) [0..<rounds (rows w)])"

definition cellAt :: "grid \<Rightarrow> nat \<Rightarrow> nat \<Rightarrow> addr option" where
  "cellAt w r c = (if r < length (nodes w) \<and> c < length (nodes w ! r)
     then Some (nodes w ! r ! c) else None)"

fun forEachCell :: "(node \<Rightarrow> node) \<Rightarrow> (nat \<times> nat) list \<Rightarrow> grid \<Rightarrow> outcome" where
  "forEachCell body [] w = Returns w"
| "forEachCell body ((r, c) # ps) w =
     (case cellAt w r c of
        None \<Rightarrow> Throws TypeError w
      | Some a \<Rightarrow> forEachCell body ps (updNode w a body))"

definition resetPathfinding :: "grid \<Rightarrow> outcome" where
  "resetPathfinding w = forEachCell
     (\<lambda>n. n\<lparr> isVisited := False, isPath := False, g := \<infinity>, h := 0, f := \<infinity>, parent := None \<rparr>)
     (cellPositions w) w"

definition clearWalls :: "grid \<Rightarrow> outcome" where
  "clearWalls w = forEachCell
     (\<lambda>n. if isWall n then n\<lparr> isWall := False, wallType := None \<rparr> else n)
     (cellPositions w) w"

definition resetGrid :: "grid \<Rightarrow> outcome" where
  "resetGrid w = setDefaultStartEnd (initializeGrid w)"

definition resize :: "grid \<Rightarrow> int option \<Rightarrow> int option \<Rightarrow> outcome" where
  "resize w newRows newCols = resetGrid (w\<lparr> rows := newRows, cols := newCols \<rparr>)"

text \<open>
  \<open>handleMouseDown\<close>, the grid's obstacle toggle. \<open>pick\<close> is the value that
  \<open>getRandomWallType\<close> draws (1 or 2).
\<close>

definition handleMouseDown :: "nat \<Rightarrow> grid \<Rightarrow> int \<Rightarrow> int \<Rightarrow> outcome" where
  "handleMouseDown pick w r c =
    (case getNode w r c of
       Inl e \<Rightarrow> Throws e w
     | Inr None \<Rightarrow> Returns w
     | Inr (Some a) \<Rightarrow>
        (let w1 = w\<lparr> mouseIsPressed := True \<rparr> in
         if isStart (heap w1 a) then Returns (w1\<lparr> currentMode := StartMode \<rparr>)
         else if isEnd (heap w1 a) then Returns (w1\<lparr> currentMode := EndMode \<rparr>)
         else
           (let w2 = updNode (w1\<lparr> currentMode := WallMode \<rparr>) a toggleWall
            in Returns (updNode w2 a
                 (\<lambda>n. if isWall n then n\<lparr> wallType := Some pick \<rparr> else n\<lparr> wallType := None \<rparr>)))))"

section \<open>Export and import of the grid state\<close>

text \<open>
  The exchanged object: \<open>rows\<close>, \<open>cols\<close>, the wall entries \<open>{row, col, type}\<close>, and the
  start and end positions. A field that is missing or \<open>null\<close> is \<open>None\<close>. No search
  field of a node is part of it.
\<close>

record gridData =
  d_rows :: "int option"
  d_cols :: "int option"
  d_walls :: "(int \<times> int \<times> nat option) list option"
  d_startNode :: "(int \<times> int) option"
  d_endNode :: "(int \<times> int) option"

definition andThen :: "outcome \<Rightarrow> (grid \<Rightarrow> outcome) \<Rightarrow> outcome" where
  "andThen out k = (case out of Throws e w \<Rightarrow> Throws e w | Returns w \<Rightarrow> k w)"

text \<open>\<open>type || 1\<close> and \<open>type || getRandomWallType()\<close>: a missing or zero type is falsy.\<close>

definition orElse :: "nat option \<Rightarrow> nat \<Rightarrow> nat" where
  "orElse t d = (case t of None \<Rightarrow> d | Some v \<Rightarrow> if v = 0 then d else v)"



text \<open>
  The \<open>forEach\<close> over the wall entries; \<open>pick i\<close> is what \<open>getRandomWallType\<close> draws for
  entry \<open>i\<close>.
\<close>

fun restoreWalls :: "(nat \<Rightarrow> nat) \<Rightarrow> gridData \<Rightarrow> nat \<Rightarrow> (int \<times> int \<times> nat option) list
    \<Rightarrow> grid \<Rightarrow> outcome" where
  "restoreWalls pick d i [] w = Returns w"
| "restoreWalls pick d i ((r, c, t) # ws) w =
     (case getNode w r c of
        Inl e \<Rightarrow> Throws e w
      | Inr None \<Rightarrow> restoreWalls pick d (Suc i) ws w
      | Inr (Some a) \<Rightarrow>
          (if d_startNode d \<noteq> Some (r, c) \<and> d_endNode d \<noteq> Some (r, c)
           then restoreWalls pick d (Suc i) ws
                  (updNode w a (\<lambda>n. n\<lparr> isWall := True, wallType := Some (orElse t (pick i)) \<rparr>))
           else restoreWalls pick d (Suc i) ws w))"

definition clearEndpoints :: "grid \<Rightarrow> grid" where
  "clearEndpoints w =
    (let w1 = (case startNode w of
                 Ref a \<Rightarrow> (updNode w a (\<lambda>n. n\<lparr> isStart := False \<rparr>))\<lparr> startNode := Null \<rparr>
               | _ \<Rightarrow> w)
     in case endNode w1 of
          Ref a \<Rightarrow> (updNode w1 a (\<lambda>n. n\<lparr> isEnd := False \<rparr>))\<lparr> endNode := Null \<rparr>
        | _ \<Rightarrow> w1)"

text \<open>
  The body of the \<open>try\<close> block of \<open>loadGridData\<close>. \<open>GridRenderer.render()\<close> rebuilds the DOM
  and does not touch the model.
\<close>

definition loadGridData_try :: "(nat \<Rightarrow> nat) \<Rightarrow> grid \<Rightarrow> gridData \<Rightarrow> outcome" where
  "loadGridData_try pick w d =
     andThen
       (if d_rows d \<noteq> rows w \<or> d_cols d \<noteq> cols w
        then resize w (d_rows d) (d_cols d)
        else andThen (clearWalls w) (\<lambda>w1. setDefaultStartEnd (clearEndpoints w1)))
       (\<lambda>w2. andThen
          (case d_walls d of None \<Rightarrow> Returns w2 | Some ws \<Rightarrow> restoreWalls pick d 0 ws w2)
          (\<lambda>w3. andThen
             (case d_startNode d of None \<Rightarrow> Returns w3
              | Some (r, c) \<Rightarrow> setStartNode w3 (Some r) (Some c))
             (\<lambda>w4. case d_endNode d of None \<Rightarrow> Returns w4
                | Some (r, c) \<Rightarrow> setEndNode w4 (Some r) (Some c))))"

text \<open>\<open>loadGridData\<close>: \<open>false\<close> for no object and for a throw caught, \<open>true\<close> otherwise.\<close>

definition loadGridData :: "(nat \<Rightarrow> nat) \<Rightarrow> grid \<Rightarrow> gridData option \<Rightarrow> bool \<times> grid" where
  "loadGridData pick w dopt =
    (case dopt of
       None \<Rightarrow> (False, w)
     | Some d \<Rightarrow>
        (case loadGridData_try pick w d of
           Returns w' \<Rightarrow> (True, w')
         | Throws e w' \<Rightarrow> (False, w')))"

text \<open>
  The first statement of the \<open>try\<close> block: \<open>resize\<close>, or clearing and placing the
  default start and end. A node array is rectangular when it has the shape that \<open>rows\<close>
  and \<open>cols\<close> say; \<open>initializeGrid\<close> builds no other. A position is inside a payload when
  it is inside the payload's own dimensions.
\<close>

definition rectangular :: "grid \<Rightarrow> bool" where
  "rectangular w \<longleftrightarrow> length (nodes w) = rounds (rows w) \<and>
     (\<forall>rw \<in> set (nodes w). length rw = rounds (cols w))"

definition loadPrepare :: "grid \<Rightarrow> gridData \<Rightarrow> outcome" where
  "loadPrepare w d =
     (if d_rows d \<noteq> rows w \<or> d_cols d \<noteq> cols w
      then resize w (d_rows d) (d_cols d)
      else andThen (clearWalls w) (\<lambda>w1. setDefaultStartEnd (clearEndpoints w1)))"

definition inPayload :: "gridData \<Rightarrow> int \<Rightarrow> int \<Rightarrow> bool" where
  "inPayload d r c = (case (d_rows d, d_cols d) of
      (Some R, Some C) \<Rightarrow> 0 \<le> r \<and> r < R \<and> 0 \<le> c \<and> c < C
    | _ \<Rightarrow> False)"


section \<open>Observations on outcomes, well-formed grids\<close>

definition outGrid :: "outcome \<Rightarrow> grid" where
  "outGrid out = (case out of Returns w \<Rightarrow> w | Throws e w \<Rightarrow> w)"

definition returned :: "outcome \<Rightarrow> bool" where
  "returned out = (case out of Returns w \<Rightarrow> True | Throws e w \<Rightarrow> False)"

definition cells :: "grid \<Rightarrow> addr list" where
  "cells w = concat (nodes w)"

definition wf_grid :: "grid \<Rightarrow> bool" where
  "wf_grid w \<longleftrightarrow>
     rows w = Some (int (length (nodes w))) \<and>
     (\<forall>rw \<in> set (nodes w). cols w = Some (int (length rw))) \<and>
     distinct (cells w) \<and>
     (\<forall>a \<in> set (cells w). a < nextAddr w \<and> 0 < weight (heap w a)) \<and>
     (\<forall>(r, rw) \<in> set (List.enumerate 0 (nodes w)). \<forall>(c, a) \<in> set (List.enumerate 0 rw).
        row (heap w a) = int r \<and> col (heap w a) = int c)"

definition grid22 :: grid where
  "grid22 = outGrid (new_Grid (Some 2) (Some 2))"


text \<open>The cell loop on a list of positions that all hold a node, no node twice.\<close>

definition posAddrs :: "grid \<Rightarrow> (nat \<times> nat) list \<Rightarrow> addr list" where
  "posAddrs w ps = map (\<lambda>(r, c). nodes w ! r ! c) ps"


text \<open>The 2 x 2 grid with both cells next to the start turned into obstacles.\<close>

definition gridBlocked :: grid where
  "gridBlocked = updNode (updNode grid22 1 (\<lambda>n. n\<lparr> isWall := True \<rparr>)) 2 (\<lambda>n. n\<lparr> isWall := True \<rparr>)"

text \<open>The heap after \<open>k\<close> rows of \<open>n\<close> fresh nodes each have been allocated.\<close>

definition freshHeap :: "grid \<Rightarrow> nat \<Rightarrow> nat \<Rightarrow> addr \<Rightarrow> node" where
  "freshHeap w k n = (\<lambda>a. if nextAddr w \<le> a \<and> a < nextAddr w + k * n
      then new_Node (int ((a - nextAddr w) div n)) (int ((a - nextAddr w) mod n)) else heap w a)"

section \<open>The role invariant of the data model\<close>

text \<open>
  Exactly one cell is the start and exactly one is the end, no cell has two of the three
  flags, and the grid's start and end references are those two cells, which differ (on
  a well-formed grid different cells are at different positions).
\<close>

definition exclusive_roles :: "grid \<Rightarrow> bool" where
  "exclusive_roles w \<longleftrightarrow>
     length (filter (\<lambda>a. isStart (heap w a)) (cells w)) = 1 \<and>
     length (filter (\<lambda>a. isEnd (heap w a)) (cells w)) = 1 \<and>
     (\<forall>a \<in> set (cells w).
        \<not> (isStart (heap w a) \<and> isEnd (heap w a)) \<and>
        \<not> (isStart (heap w a) \<and> isWall (heap w a)) \<and>
        \<not> (isEnd (heap w a) \<and> isWall (heap w a))) \<and>
     (case (startNode w, endNode w) of
        (Ref s, Ref e) \<Rightarrow> s \<in> set (cells w) \<and> e \<in> set (cells w) \<and>
           isStart (heap w s) \<and> isEnd (heap w e) \<and> s \<noteq> e
      | _ \<Rightarrow> False)"

definition grid_inv :: "grid \<Rightarrow> bool" where
  "grid_inv w \<longleftrightarrow> wf_grid w \<and> exclusive_roles w"

text \<open>The same, with the two cells named.\<close>

definition roles_at :: "grid \<Rightarrow> addr \<Rightarrow> addr \<Rightarrow> bool" where
  "roles_at w s e \<longleftrightarrow> startNode w = Ref s \<and> endNode w = Ref e \<and>
     s \<in> set (cells w) \<and> e \<in> set (cells w) \<and> s \<noteq> e \<and>
     (\<forall>a \<in> set (cells w). (isStart (heap w a) \<longleftrightarrow> a = s) \<and> (isEnd (heap w a) \<longleftrightarrow> a = e)) \<and>
     \<not> isWall (heap w s) \<and> \<not> isWall (heap w e)"




text \<open>Every cell that carries a role flag is the one the grid refers to.\<close>

definition tracked :: "grid \<Rightarrow> bool" where
  "tracked w \<longleftrightarrow> (\<forall>a \<in> set (cells w).
     (isStart (heap w a) \<longrightarrow> startNode w = Ref a) \<and> (isEnd (heap w a) \<longrightarrow> endNode w = Ref a))"

section \<open>The A* search\<close>

text \<open>
  The \<open>AStar\<close> object. The open set, the closed set, the path and the visit order are
  arrays of node references. The animation speed and the clock are left out.
\<close>

record astar =
  openSet :: "addr list"
  closedSet :: "addr list"
  path :: "addr list"
  visitedNodes :: "addr list"
  isRunning :: bool
  nodesExplored :: nat

definition new_AStar :: astar where
  "new_AStar = \<lparr> openSet = [], closedSet = [], path = [], visitedNodes = [],
     isRunning = False, nodesExplored = 0 \<rparr>"

text \<open>The object that \<open>findPath\<close> returns on success (without \<open>timeTaken\<close>).\<close>

record result =
  r_path :: "addr list"
  r_visitedNodes :: "addr list"
  r_pathLength :: nat
  r_nodesExplored :: nat

datatype answer = ReturnsNull | ReturnsResult result | ThrowsError error

text \<open>
  \<open>getLowestFNode\<close>: the scan starts from \<open>openSet[0]\<close> and replaces the candidate only by
  a strictly better node. On an empty open set the candidate is \<open>undefined\<close>.
\<close>

definition better :: "node \<Rightarrow> node \<Rightarrow> bool" where
  "better n low \<longleftrightarrow> f n < f low \<or> (f n = f low \<and> h n < h low)"

definition getLowestFNode :: "(addr \<Rightarrow> node) \<Rightarrow> addr list \<Rightarrow> addr option" where
  "getLowestFNode hp os =
    (case os of
       [] \<Rightarrow> None
     | x # xs \<Rightarrow> Some (fold (\<lambda>n low. if better (hp n) (hp low) then n else low) os x))"

text \<open>\<open>removeFromArray\<close>: \<open>indexOf\<close> and \<open>splice\<close> take out the first occurrence.\<close>

definition removeFromArray :: "addr list \<Rightarrow> addr \<Rightarrow> addr list" where
  "removeFromArray xs x = remove1 x xs"

text \<open>
  \<open>isValidPosition\<close> compares the column with the length of row 0 and then reads
  \<open>grid[row][col].isWall\<close>, which throws (\<open>None\<close>) when that row is shorter.
\<close>

definition isValidPosition :: "(addr \<Rightarrow> node) \<Rightarrow> addr list list \<Rightarrow> int \<Rightarrow> int \<Rightarrow> bool option" where
  "isValidPosition hp grd r c =
    (if 0 \<le> r \<and> r < int (length grd) \<and> 0 \<le> c \<and> c < int (length (grd ! 0))
     then (case arr_get (grd ! nat r) (Some c) of
             None \<Rightarrow> None
           | Some a \<Rightarrow> Some (\<not> isWall (hp a)))
     else Some False)"

definition directions :: "(int \<times> int) list" where
  "directions = [(-1, 0), (0, 1), (1, 0), (0, -1)]"

fun neighborsIn :: "(addr \<Rightarrow> node) \<Rightarrow> addr list list \<Rightarrow> node \<Rightarrow> (int \<times> int) list
    \<Rightarrow> addr list option" where
  "neighborsIn hp grd n [] = Some []"
| "neighborsIn hp grd n ((dRow, dCol) # ds) =
     (case isValidPosition hp grd (row n + dRow) (col n + dCol) of
        None \<Rightarrow> None
      | Some ok \<Rightarrow>
         (case neighborsIn hp grd n ds of
            None \<Rightarrow> None
          | Some rest \<Rightarrow>
              Some (if ok then grd ! nat (row n + dRow) ! nat (col n + dCol) # rest else rest)))"

definition getNeighbors :: "(addr \<Rightarrow> node) \<Rightarrow> addr list list \<Rightarrow> node \<Rightarrow> addr list option" where
  "getNeighbors hp grd n = neighborsIn hp grd n directions"

text \<open>The body of the loop over the neighbours of \<open>currentNode\<close>.\<close>

definition relax :: "addr \<Rightarrow> addr \<Rightarrow> addr \<Rightarrow> astar \<times> grid \<Rightarrow> astar \<times> grid" where
  "relax cur e nb s =
    (case s of (A, G) \<Rightarrow>
      if nb \<in> set (closedSet A) \<or> isWall (heap G nb) then (A, G)
      else
        (let tentativeG = g (heap G cur) + enat (weight (heap G nb)) in
         if tentativeG < g (heap G nb) then
           (let hv = calculateHeuristic (heap G nb) (heap G e);
                G1 = updNode G nb
                       (\<lambda>n. n\<lparr> parent := Some cur, g := tentativeG, h := hv, f := tentativeG + enat hv \<rparr>)
            in (if nb \<in> set (openSet A) then A else A\<lparr> openSet := openSet A @ [nb] \<rparr>, G1))
         else (A, G)))"

datatype status = Searching | Reached | Crashed

text \<open>
  One round of the \<open>while\<close> loop of \<open>findPath\<close>, run without animation. Reaching the goal
  leaves the loop (\<open>Reached\<close>); the path is rebuilt after it.
\<close>

definition findPath_cond :: "status \<times> astar \<times> grid \<Rightarrow> bool" where
  "findPath_cond s = (case s of (st, A, G) \<Rightarrow> st = Searching \<and> openSet A \<noteq> [] \<and> isRunning A)"

definition findPath_step :: "addr \<Rightarrow> status \<times> astar \<times> grid \<Rightarrow> status \<times> astar \<times> grid" where
  "findPath_step e s =
    (case s of (st, A, G) \<Rightarrow>
      (case getLowestFNode (heap G) (openSet A) of
         None \<Rightarrow> (Crashed, A, G)
       | Some cur \<Rightarrow>
          if cur = e then (Reached, A, G)
          else
            (let A1 = A\<lparr> openSet := removeFromArray (openSet A) cur,
                         closedSet := closedSet A @ [cur] \<rparr>;
                 (A2, G2) =
                   (if \<not> isStart (heap G cur) \<and> \<not> isEnd (heap G cur)
                    then (A1\<lparr> visitedNodes := visitedNodes A1 @ [cur],
                              nodesExplored := Suc (nodesExplored A1) \<rparr>,
                          updNode G cur (\<lambda>n. n\<lparr> isVisited := True \<rparr>))
                    else (A1, G))
             in case getNeighbors (heap G2) (nodes G2) (heap G2 cur) of
                  None \<Rightarrow> (Crashed, A2, G2)
                | Some ns \<Rightarrow>
                    (case fold (relax cur e) ns (A2, G2) of (A3, G3) \<Rightarrow> (Searching, A3, G3)))))"

text \<open>\<open>reconstructPath\<close> follows \<open>parent\<close> until \<open>null\<close>; it need not end on every heap.\<close>

definition reconstructPath :: "(addr \<Rightarrow> node) \<Rightarrow> addr \<Rightarrow> addr list option" where
  "reconstructPath hp endN =
     map_option fst
       (while_option (\<lambda>(p, cur). cur \<noteq> None)
          (\<lambda>(p, cur). case cur of None \<Rightarrow> (p, None) | Some a \<Rightarrow> (a # p, parent (hp a)))
          ([], Some endN))"

definition AStar_reset :: "astar \<Rightarrow> astar" where
  "AStar_reset A = A\<lparr> openSet := [], closedSet := [], path := [], visitedNodes := [],
     nodesExplored := 0 \<rparr>"

text \<open>
  \<open>findPath(false)\<close>. The value is \<open>None\<close> when a loop does not end; otherwise the answer
  with the search object and the grid as the call leaves them.
\<close>

definition findPath :: "astar \<Rightarrow> grid \<Rightarrow> (answer \<times> astar \<times> grid) option" where
  "findPath A G =
    (if isRunning A then Some (ReturnsNull, A, G)
     else case (startNode G, endNode G) of
       (Ref s, Ref e) \<Rightarrow>
         (let A1 = AStar_reset (A\<lparr> isRunning := True \<rparr>) in
          case resetPathfinding G of
            Throws err G' \<Rightarrow> Some (ThrowsError err, A1, G')
          | Returns G1 \<Rightarrow>
             (let hv = calculateHeuristic (heap G1 s) (heap G1 e);
                  G2 = updNode G1 s (\<lambda>n. n\<lparr> g := 0, h := hv, f := enat hv \<rparr>);
                  A2 = A1\<lparr> openSet := [s] \<rparr>
              in case while_option findPath_cond (findPath_step e) (Searching, A2, G2) of
                   None \<Rightarrow> None
                 | Some (st, A3, G3) \<Rightarrow>
                    (case st of
                       Reached \<Rightarrow>
                         (case reconstructPath (heap G3) e of
                            None \<Rightarrow> None
                          | Some p \<Rightarrow>
                              Some (ReturnsResult
                                      \<lparr> r_path = p, r_visitedNodes = visitedNodes A3,
                                        r_pathLength = length p,
                                        r_nodesExplored = nodesExplored A3 \<rparr>,
                                    A3\<lparr> path := p, isRunning := False \<rparr>, G3))
                     | Searching \<Rightarrow> Some (ReturnsNull, A3\<lparr> isRunning := False \<rparr>, G3)
                     | Crashed \<Rightarrow> Some (ThrowsError TypeError, A3, G3))))
     | _ \<Rightarrow> Some (ReturnsNull, A, G))"

section \<open>Paths on the grid\<close>

text \<open>
  \<open>edge G a b\<close>: \<open>b\<close> is a cell of the grid, not an obstacle, and orthogonally next to
  \<open>a\<close>. A walk is a non-empty list of nodes with an edge between each two consecutive
  ones; an obstacle-free path from \<open>s\<close> to \<open>e\<close> is a walk from \<open>s\<close> to \<open>e\<close> whose first
  node is a cell and not an obstacle either.
\<close>

definition edge :: "grid \<Rightarrow> addr \<Rightarrow> addr \<Rightarrow> bool" where
  "edge G a b \<longleftrightarrow> b \<in> set (cells G) \<and> \<not> isWall (heap G b) \<and>
     \<bar>row (heap G a) - row (heap G b)\<bar> + \<bar>col (heap G a) - col (heap G b)\<bar> = 1"

fun walk :: "grid \<Rightarrow> addr list \<Rightarrow> bool" where
  "walk G [] = False"
| "walk G [a] = True"
| "walk G (a # b # p) = (edge G a b \<and> walk G (b # p))"

definition is_path :: "grid \<Rightarrow> addr \<Rightarrow> addr \<Rightarrow> addr list \<Rightarrow> bool" where
  "is_path G s e p \<longleftrightarrow> walk G p \<and> hd p = s \<and> last p = e \<and>
     s \<in> set (cells G) \<and> \<not> isWall (heap G s)"

definition inBounds :: "grid \<Rightarrow> int \<Rightarrow> int \<Rightarrow> bool" where
  "inBounds G r c \<longleftrightarrow> 0 \<le> r \<and> r < int (length (nodes G)) \<and> 0 \<le> c \<and>
     c < int (length (nodes G ! nat r))"

text \<open>The cell in direction \<open>d\<close> from a node, and whether \<open>isValidPosition\<close> accepts it.\<close>

definition okDir :: "grid \<Rightarrow> node \<Rightarrow> int \<times> int \<Rightarrow> bool" where
  "okDir G n d = (inBounds G (row n + fst d) (col n + snd d) \<and>
      \<not> isWall (heap G (nodes G ! nat (row n + fst d) ! nat (col n + snd d))))"

definition dirCell :: "grid \<Rightarrow> node \<Rightarrow> int \<times> int \<Rightarrow> addr" where
  "dirCell G n d = nodes G ! nat (row n + fst d) ! nat (col n + snd d)"

section \<open>Invariants of the search loop\<close>

text \<open>
  The layout of a node is what the search never writes: position, obstacle flag, weight
  and role flags. \<open>same_layout G0 G\<close>: \<open>G\<close> is \<open>G0\<close> up to the search fields of its nodes.
\<close>

definition lay :: "node \<Rightarrow> int \<times> int \<times> bool \<times> nat \<times> bool \<times> bool" where
  "lay n = (row n, col n, isWall n, weight n, isStart n, isEnd n)"

definition same_layout :: "grid \<Rightarrow> grid \<Rightarrow> bool" where
  "same_layout G0 G \<longleftrightarrow> nodes G = nodes G0 \<and> rows G = rows G0 \<and> cols G = cols G0 \<and>
     nextAddr G = nextAddr G0 \<and> startNode G = startNode G0 \<and> endNode G = endNode G0 \<and>
     (\<forall>a. lay (heap G a) = lay (heap G0 a))"

definition seen :: "astar \<Rightarrow> addr set" where
  "seen A = set (openSet A) \<union> set (closedSet A)"

text \<open>
  What holds of the open set, the closed set and the heap whenever the loop test is
  made: the two sets are disjoint, the start is known with cost 0 (and, when it is a
  cell of the grid, so that the reset has reached it, with no parent), every other
  known node is a cell and has a closed parent next to it and a cost one step (its
  weight) above its parent's.
\<close>

definition search_inv :: "grid \<Rightarrow> addr \<Rightarrow> astar \<times> grid \<Rightarrow> bool" where
  "search_inv G0 s \<sigma> = (case \<sigma> of (A, G) \<Rightarrow>
     same_layout G0 G \<and>
     distinct (openSet A) \<and> set (openSet A) \<inter> set (closedSet A) = {} \<and>
     seen A \<subseteq> insert s (set (cells G0)) \<and>
     s \<in> seen A \<and> g (heap G s) = 0 \<and>
     (s \<in> set (cells G0) \<longrightarrow> parent (heap G s) = None) \<and>
     (\<forall>a \<in> seen A. a \<noteq> s \<longrightarrow>
        (\<exists>p. parent (heap G a) = Some p \<and> p \<in> set (closedSet A) \<and> edge G0 p a \<and>
             g (heap G a) = g (heap G p) + enat (weight (heap G a)))) \<and>
     (\<forall>a \<in> seen A. g (heap G a) \<noteq> \<infinity>))"

definition loop_inv :: "grid \<Rightarrow> addr \<Rightarrow> addr \<Rightarrow> status \<times> astar \<times> grid \<Rightarrow> bool" where
  "loop_inv G0 s e \<sigma> = (case \<sigma> of (st, A, G) \<Rightarrow>
     search_inv G0 s (A, G) \<and> isRunning A \<and> path A = [] \<and> st \<noteq> Crashed \<and>
     e \<notin> set (closedSet A) \<and> (st = Reached \<longrightarrow> e \<in> set (openSet A)))"

text \<open>The loop ends: each round closes one more cell, or leaves the loop.\<close>

definition loop_measure :: "grid \<Rightarrow> addr \<Rightarrow> status \<times> astar \<times> grid \<Rightarrow> nat" where
  "loop_measure G0 s \<sigma> = (case \<sigma> of (st, A, G) \<Rightarrow>
     if st = Searching then Suc (card (insert s (set (cells G0)) - set (closedSet A))) else 0)"

text \<open>The search object and the grid at the first loop test of \<open>findPath\<close>.\<close>

definition initAStar :: "astar \<Rightarrow> addr \<Rightarrow> astar" where
  "initAStar A s = (AStar_reset (A\<lparr> isRunning := True \<rparr>))\<lparr> openSet := [s] \<rparr>"

definition initGrid :: "grid \<Rightarrow> addr \<Rightarrow> addr \<Rightarrow> grid" where
  "initGrid G s e =
    (let G1 = outGrid (resetPathfinding G);
         hv = calculateHeuristic (heap G1 s) (heap G1 e)
     in updNode G1 s (\<lambda>n. n\<lparr> g := 0, h := hv, f := enat hv \<rparr>))"

text \<open>Reading an answer of \<open>findPath\<close>: the returned path, if a result object is returned.\<close>

definition resultPath :: "(answer \<times> astar \<times> grid) option \<Rightarrow> addr list option" where
  "resultPath x = (case x of
     Some (ReturnsResult res, A, G) \<Rightarrow> Some (r_path res)
   | _ \<Rightarrow> None)"

definition returnsNull :: "(answer \<times> astar \<times> grid) option \<Rightarrow> bool" where
  "returnsNull x = (case x of Some (ReturnsNull, A, G) \<Rightarrow> True | _ \<Rightarrow> False)"

text \<open>
  What makes the search optimal on unit weights. Unknown cells have cost \<open>\<infinity>\<close>; a known
  node has \<open>f = g + h\<close> with \<open>h\<close> its Manhattan distance to the goal; every free
  neighbour of a closed node is closed, or open at a cost at most one above (except, while
  \<open>cur\<close> is being expanded, its neighbours still \<open>todo\<close>); the cost of a closed node is at
  most the number of steps of any path from the start to it.
\<close>

definition opt_inv :: "grid \<Rightarrow> addr \<Rightarrow> addr \<Rightarrow> addr \<Rightarrow> addr set \<Rightarrow> astar \<times> grid \<Rightarrow> bool" where
  "opt_inv G0 s e cur todo \<sigma> = (case \<sigma> of (A, G) \<Rightarrow>
     (\<forall>a \<in> set (cells G0). a \<notin> seen A \<longrightarrow> g (heap G a) = \<infinity>) \<and>
     (\<forall>a \<in> seen A. f (heap G a) = g (heap G a) + enat (h (heap G a)) \<and>
        h (heap G a) = calculateHeuristic (heap G0 a) (heap G0 e)) \<and>
     (\<forall>a \<in> set (closedSet A). \<forall>b. edge G0 a b \<longrightarrow>
        (a = cur \<and> b \<in> todo) \<or> b \<in> set (closedSet A) \<or>
        (b \<in> set (openSet A) \<and> g (heap G b) \<le> g (heap G a) + 1)) \<and>
     (\<forall>a \<in> set (closedSet A). \<forall>p. is_path G0 s a p \<longrightarrow> g (heap G a) + 1 \<le> enat (length p)))"

definition opt_loop_inv :: "grid \<Rightarrow> addr \<Rightarrow> addr \<Rightarrow> status \<times> astar \<times> grid \<Rightarrow> bool" where
  "opt_loop_inv G0 s e \<sigma> = (case \<sigma> of (st, A, G) \<Rightarrow>
     loop_inv G0 s e (st, A, G) \<and> opt_inv G0 s e s {} (A, G) \<and>
     (st = Reached \<longrightarrow> (\<forall>p. is_path G0 s e p \<longrightarrow> g (heap G e) + 1 \<le> enat (length p))))"

definition unit_weights :: "grid \<Rightarrow> bool" where
  "unit_weights G \<longleftrightarrow> (\<forall>c \<in> set (cells G). weight (heap G c) = 1)"

section \<open>Example grids\<close>

text \<open>
  An import into the 2 x 2 grid of a payload of the same size with one wall entry, at
  the default start position (0, 0), and no start or end entry. \<open>loadGridData\<close> places
  the default start and end and then restores the wall: its filter compares the wall
  with the start and end of the payload only.
\<close>

definition wallOnStart :: gridData where
  "wallOnStart = \<lparr> d_rows = Some 2, d_cols = Some 2, d_walls = Some [(0, 0, Some 1)],
     d_startNode = None, d_endNode = None \<rparr>"

definition gridWalledStart :: grid where
  "gridWalledStart = snd (loadGridData (\<lambda>i. 1) grid22 (Some wallOnStart))"

text \<open>The 2 x 2 grid as a search leaves it.\<close>

definition gridSearched :: grid where
  "gridSearched = (case findPath new_AStar grid22 of Some (r, A, G) \<Rightarrow> G | None \<Rightarrow> grid22)"

text \<open>
  After that search, an import that puts the start on the default end cell (1, 1), and
  then an import of a payload with no rows, whose \<open>resize\<close> throws: the grid is left
  without cells, and its start and end are still the old node 3, which kept the
  \<open>parent\<close> the search gave it.
\<close>

definition startOnEnd :: gridData where
  "startOnEnd = \<lparr> d_rows = Some 2, d_cols = Some 2, d_walls = None,
     d_startNode = Some (1, 1), d_endNode = None \<rparr>"

definition noRows :: gridData where
  "noRows = \<lparr> d_rows = Some 0, d_cols = Some 0, d_walls = None,
     d_startNode = None, d_endNode = None \<rparr>"

definition gridStale :: grid where
  "gridStale = snd (loadGridData (\<lambda>i. 1)
      (snd (loadGridData (\<lambda>i. 1) gridSearched (Some startOnEnd))) (Some noRows))"

text \<open>The search on the 2 x 2 grid after its first round: the start is closed.\<close>

definition secondRound :: "status \<times> astar \<times> grid" where
  "secondRound = findPath_step 3 (Searching, initAStar new_AStar 0, initGrid grid22 0 3)"



text \<open>A payload for the 2 x 2 grid with a start, an end and three wall entries, one outside.\<close>

definition validPayload :: gridData where
  "validPayload = \<lparr> d_rows = Some 2, d_cols = Some 2,
     d_walls = Some [(0, 1, Some 2), (1, 0, None), (7, 7, Some 1)],
     d_startNode = Some (1, 0), d_endNode = Some (0, 0) \<rparr>"
section \<open>Arithmetic facts\<close>

lemma quarter_eq: "1 \<le> (R::int) \<Longrightarrow> R div 4 = (3 * R) div 4 \<Longrightarrow> R = 1"
  by presburger

lemma abs_sum_one:
  "\<bar>a\<bar> + \<bar>b\<bar> = (1::int) \<Longrightarrow>
     (a, b) = (-1, 0) \<or> (a, b) = (0, 1) \<or> (a, b) = (1, 0) \<or> (a, b) = (0, -1)"
  by (simp add: prod_eq_iff) presburger

lemma manh_step:
  fixes ra rb ca cb re ce :: int
  assumes "\<bar>ra - rb\<bar> + \<bar>ca - cb\<bar> = 1"
  shows "nat \<bar>ca - ce\<bar> + nat \<bar>ra - re\<bar> \<le> Suc (nat \<bar>cb - ce\<bar> + nat \<bar>rb - re\<bar>)"
proof -
  have 1: "\<bar>ca - ce\<bar> \<le> \<bar>ca - cb\<bar> + \<bar>cb - ce\<bar>" by linarith
  have 2: "\<bar>ra - re\<bar> \<le> \<bar>ra - rb\<bar> + \<bar>rb - re\<bar>" by linarith
  define A B C D where "A = \<bar>ca - ce\<bar>" and "B = \<bar>ra - re\<bar>" and "C = \<bar>cb - ce\<bar>" and "D = \<bar>rb - re\<bar>"
  have nn: "0 \<le> A" "0 \<le> B" "0 \<le> C" "0 \<le> D" by (simp_all add: A_def B_def C_def D_def)
  define X Y where "X = \<bar>ca - cb\<bar>" and "Y = \<bar>ra - rb\<bar>"
  have "A \<le> X + C" "B \<le> Y + D" "Y + X = 1"
    using 1 2 assms unfolding A_def B_def C_def D_def X_def Y_def by simp_all
  then have "A + B \<le> 1 + (C + D)" by linarith
  then have "nat A + nat B \<le> Suc (nat C + nat D)" using nn by linarith
  then show ?thesis unfolding A_def B_def C_def D_def .
qed

section \<open>Properties of the grid operations\<close>

lemma wf_rows: "wf_grid w \<Longrightarrow> rows w = Some (int (length (nodes w)))"
  by (simp add: wf_grid_def)

lemma wf_cols: "wf_grid w \<Longrightarrow> r < length (nodes w) \<Longrightarrow> cols w = Some (int (length (nodes w ! r)))"
  by (simp add: wf_grid_def)

lemma wf_distinct: "wf_grid w \<Longrightarrow> distinct (cells w)"
  by (simp add: wf_grid_def)

lemma wf_pos:
  assumes "wf_grid w" "r < length (nodes w)" "c < length (nodes w ! r)"
  shows "row (heap w (nodes w ! r ! c)) = int r \<and> col (heap w (nodes w ! r ! c)) = int c"
proof -
  have 1: "(r, nodes w ! r) \<in> set (List.enumerate 0 (nodes w))"
    using assms(2) by (simp add: in_set_enumerate_eq)
  have 2: "(c, nodes w ! r ! c) \<in> set (List.enumerate 0 (nodes w ! r))"
    using assms(3) by (simp add: in_set_enumerate_eq)
  from assms(1) 1 2 show ?thesis
    unfolding wf_grid_def by blast
qed

lemma cellAt_in_cells: "cellAt w r c = Some a \<Longrightarrow> a \<in> set (cells w)"
proof -
  assume "cellAt w r c = Some a"
  then have "r < length (nodes w)" "c < length (nodes w ! r)" "a = nodes w ! r ! c"
    by (simp_all add: cellAt_def split: if_splits)
  then have "a \<in> set (nodes w ! r)" "nodes w ! r \<in> set (nodes w)" by simp_all
  then show ?thesis unfolding cells_def set_concat by blast
qed

lemma getNode_wf:
  assumes "wf_grid w"
  shows "getNode w r c = Inr (if 0 \<le> r \<and> 0 \<le> c then cellAt w (nat r) (nat c) else None)"
proof (cases "0 \<le> r \<and> r < int (length (nodes w))")
  case True
  then have rl: "nat r < length (nodes w)" by linarith
  show ?thesis using True rl wf_rows[OF assms] wf_cols[OF assms rl]
    by (auto simp: getNode_def arr_get_def cellAt_def)
next
  case False
  then show ?thesis using wf_rows[OF assms]
    by (auto simp: getNode_def arr_get_def cellAt_def)
qed

lemma updNode_simps [simp]:
  "heap (updNode w a u) = (heap w)(a := u (heap w a))"
  "nodes (updNode w a u) = nodes w"
  "rows (updNode w a u) = rows w"
  "cols (updNode w a u) = cols w"
  "startNode (updNode w a u) = startNode w"
  "endNode (updNode w a u) = endNode w"
  "nextAddr (updNode w a u) = nextAddr w"
  "mouseIsPressed (updNode w a u) = mouseIsPressed w"
  "currentMode (updNode w a u) = currentMode w"
  by (simp_all add: updNode_def)

lemma cellAt_updNode [simp]: "cellAt (updNode w a u) r c = cellAt w r c"
  by (simp add: cellAt_def)

lemma cells_updNode [simp]: "cells (updNode w a u) = cells w"
  by (simp add: cells_def)

lemma forEachCell_heap:
  assumes "\<forall>(r, c) \<in> set ps. r < length (nodes w) \<and> c < length (nodes w ! r)"
    and "distinct (posAddrs w ps)"
  shows "forEachCell body ps w =
    Returns (w\<lparr> heap := (\<lambda>a. if a \<in> set (posAddrs w ps) then body (heap w a) else heap w a) \<rparr>)"
  using assms
proof (induction ps arbitrary: w)
  case Nil
  then show ?case by (simp add: posAddrs_def)
next
  case (Cons p ps)
  obtain r c where p: "p = (r, c)" by (cases p)
  let ?a = "nodes w ! r ! c"
  let ?w = "updNode w ?a body"
  have ca: "cellAt w r c = Some ?a" using Cons.prems(1) p by (simp add: cellAt_def)
  have pa: "posAddrs ?w ps = posAddrs w ps" by (simp add: posAddrs_def)
  have "forEachCell body ps ?w =
    Returns (?w\<lparr> heap := (\<lambda>a. if a \<in> set (posAddrs ?w ps) then body (heap ?w a) else heap ?w a) \<rparr>)"
    using Cons.prems p by (intro Cons.IH) (auto simp: posAddrs_def)
  moreover have "?a \<notin> set (posAddrs w ps)"
    using Cons.prems(2) p by (simp add: posAddrs_def)
  then have "(\<lambda>a. if a \<in> set (posAddrs ?w ps) then body (heap ?w a) else heap ?w a)
      = (\<lambda>a. if a \<in> set (posAddrs w (p # ps)) then body (heap w a) else heap w a)"
    unfolding pa by (auto simp: p posAddrs_def fun_eq_iff)
  ultimately show ?case
    using ca by (simp add: p updNode_def)
qed

lemma concat_map_nth_rows:
  assumes "\<forall>rw \<in> set xss. length rw = n"
  shows "concat (map (\<lambda>r. map (\<lambda>c. xss ! r ! c) [0..<n]) [0..<length xss]) = concat xss"
proof -
  have "map (\<lambda>r. map (\<lambda>c. xss ! r ! c) [0..<n]) [0..<length xss] = xss"
  proof (rule nth_equalityI)
    show "length (map (\<lambda>r. map (\<lambda>c. xss ! r ! c) [0..<n]) [0..<length xss]) = length xss"
      by simp
  next
    fix i assume "i < length (map (\<lambda>r. map (\<lambda>c. xss ! r ! c) [0..<n]) [0..<length xss])"
    then have i: "i < length xss" by simp
    then have "length (xss ! i) = n" using assms by simp
    then have "map (\<lambda>c. xss ! i ! c) [0..<n] = xss ! i"
      using map_nth[of "xss ! i"] by simp
    then show "map (\<lambda>r. map (\<lambda>c. xss ! r ! c) [0..<n]) [0..<length xss] ! i = xss ! i"
      using i by simp
  qed
  then show ?thesis by simp
qed

lemma posAddrs_cellPositions:
  assumes "wf_grid w"
  shows "posAddrs w (cellPositions w) = cells w"
proof (cases "nodes w")
  case Nil
  then show ?thesis using wf_rows[OF assms]
    by (simp add: posAddrs_def cellPositions_def cells_def rounds_def)
next
  case (Cons rw rws)
  then have "0 < length (nodes w)" by simp
  from wf_cols[OF assms this] obtain n where n: "cols w = Some (int n)" by blast
  have all: "\<forall>rw \<in> set (nodes w). length rw = n"
    using assms n by (auto simp: wf_grid_def)
  have "posAddrs w (cellPositions w) =
     concat (map (\<lambda>r. map (\<lambda>c. nodes w ! r ! c) [0..<n]) [0..<length (nodes w)])"
    using wf_rows[OF assms] n
    by (simp add: posAddrs_def cellPositions_def rounds_def map_concat comp_def)
  then show ?thesis using concat_map_nth_rows[OF all] by (simp add: cells_def)
qed

lemma cellPositions_valid:
  assumes "wf_grid w"
  shows "\<forall>(r, c) \<in> set (cellPositions w). r < length (nodes w) \<and> c < length (nodes w ! r)"
  using wf_rows[OF assms] wf_cols[OF assms]
  by (auto simp: cellPositions_def rounds_def)

lemma forEachCell_wf:
  assumes "wf_grid w"
  shows "forEachCell body (cellPositions w) w =
    Returns (w\<lparr> heap := (\<lambda>a. if a \<in> set (cells w) then body (heap w a) else heap w a) \<rparr>)"
  using forEachCell_heap[OF cellPositions_valid[OF assms], of body]
    wf_distinct[OF assms] posAddrs_cellPositions[OF assms]
  by simp

lemma wf_grid_heap_upd:
  assumes "wf_grid w"
    "\<And>a. row (hp a) = row (heap w a) \<and> col (hp a) = col (heap w a) \<and> weight (hp a) = weight (heap w a)"
  shows "wf_grid (w\<lparr> heap := hp \<rparr>)"
  using assms unfolding wf_grid_def cells_def by simp


subsection \<open>Moving the start and the end\<close>

lemma arr_get_cell:
  "(case arr_get (nodes w) (Some r) of None \<Rightarrow> None | Some rw \<Rightarrow> arr_get rw (Some c))
     = (if 0 \<le> r \<and> 0 \<le> c then cellAt w (nat r) (nat c) else None)"
  by (auto simp: arr_get_def cellAt_def)

lemma setStartNode_in:
  assumes "0 \<le> r" "0 \<le> c" "cellAt w (nat r) (nat c) = Some a"
  shows "setStartNode w (Some r) (Some c) = Returns (w\<lparr> startNode := Ref a,
     heap := (\<lambda>b. if b = a then setAsStart (heap w a)
                  else if startNode w = Ref b then (heap w b)\<lparr> isStart := False \<rparr>
                  else heap w b) \<rparr>)"
proof -
  have r: "arr_get (nodes w) (Some r) = Some (nodes w ! nat r)"
    and c: "arr_get (nodes w ! nat r) (Some c) = Some a"
    using assms by (auto simp: arr_get_def cellAt_def split: if_splits)
  show ?thesis
  proof (cases "startNode w")
    case (Ref p)
    have "(heap w)(p := (heap w p)\<lparr>isStart := False\<rparr>, a := setAsStart (((heap w)(p := (heap w p)\<lparr>isStart := False\<rparr>)) a))
      = (\<lambda>b. if b = a then setAsStart (heap w a)
                  else if startNode w = Ref b then (heap w b)\<lparr> isStart := False \<rparr>
                  else heap w b)"
      using Ref by (auto simp: fun_eq_iff setAsStart_def)
    then show ?thesis using Ref r c
      by (simp add: setStartNode_def updNode_def)
  next
    case Null
    have "(heap w)(a := setAsStart (heap w a))
      = (\<lambda>b. if b = a then setAsStart (heap w a)
                  else if startNode w = Ref b then (heap w b)\<lparr> isStart := False \<rparr>
                  else heap w b)"
      using Null by (auto simp: fun_eq_iff)
    then show ?thesis using Null r c
      by (simp add: setStartNode_def updNode_def)
  next
    case Undefined
    have "(heap w)(a := setAsStart (heap w a))
      = (\<lambda>b. if b = a then setAsStart (heap w a)
                  else if startNode w = Ref b then (heap w b)\<lparr> isStart := False \<rparr>
                  else heap w b)"
      using Undefined by (auto simp: fun_eq_iff)
    then show ?thesis using Undefined r c
      by (simp add: setStartNode_def updNode_def)
  qed
qed

lemma setStartNode_out:
  assumes "r < 0 \<or> c < 0 \<or> cellAt w (nat r) (nat c) = None"
  shows "\<exists>w'. setStartNode w (Some r) (Some c) = Throws TypeError w'"
proof -
  have "(case arr_get (nodes w) (Some r) of None \<Rightarrow> None | Some rw \<Rightarrow> arr_get rw (Some c)) = None"
    unfolding arr_get_cell using assms by auto
  then show ?thesis
    by (cases "startNode w") (auto simp: setStartNode_def Let_def split: option.splits)
qed

lemma setEndNode_in:
  assumes "0 \<le> r" "0 \<le> c" "cellAt w (nat r) (nat c) = Some a"
  shows "setEndNode w (Some r) (Some c) = Returns (w\<lparr> endNode := Ref a,
     heap := (\<lambda>b. if b = a then setAsEnd (heap w a)
                  else if endNode w = Ref b then (heap w b)\<lparr> isEnd := False \<rparr>
                  else heap w b) \<rparr>)"
proof -
  have r: "arr_get (nodes w) (Some r) = Some (nodes w ! nat r)"
    and c: "arr_get (nodes w ! nat r) (Some c) = Some a"
    using assms by (auto simp: arr_get_def cellAt_def split: if_splits)
  show ?thesis
  proof (cases "endNode w")
    case (Ref p)
    have "(heap w)(p := (heap w p)\<lparr>isEnd := False\<rparr>, a := setAsEnd (((heap w)(p := (heap w p)\<lparr>isEnd := False\<rparr>)) a))
      = (\<lambda>b. if b = a then setAsEnd (heap w a)
                  else if endNode w = Ref b then (heap w b)\<lparr> isEnd := False \<rparr>
                  else heap w b)"
      using Ref by (auto simp: fun_eq_iff setAsEnd_def)
    then show ?thesis using Ref r c
      by (simp add: setEndNode_def updNode_def)
  next
    case Null
    have "(heap w)(a := setAsEnd (heap w a))
      = (\<lambda>b. if b = a then setAsEnd (heap w a)
                  else if endNode w = Ref b then (heap w b)\<lparr> isEnd := False \<rparr>
                  else heap w b)"
      using Null by (auto simp: fun_eq_iff)
    then show ?thesis using Null r c
      by (simp add: setEndNode_def updNode_def)
  next
    case Undefined
    have "(heap w)(a := setAsEnd (heap w a))
      = (\<lambda>b. if b = a then setAsEnd (heap w a)
                  else if endNode w = Ref b then (heap w b)\<lparr> isEnd := False \<rparr>
                  else heap w b)"
      using Undefined by (auto simp: fun_eq_iff)
    then show ?thesis using Undefined r c
      by (simp add: setEndNode_def updNode_def)
  qed
qed

lemma setEndNode_out:
  assumes "r < 0 \<or> c < 0 \<or> cellAt w (nat r) (nat c) = None"
  shows "\<exists>w'. setEndNode w (Some r) (Some c) = Throws TypeError w'"
proof -
  have "(case arr_get (nodes w) (Some r) of None \<Rightarrow> None | Some rw \<Rightarrow> arr_get rw (Some c)) = None"
    unfolding arr_get_cell using assms by auto
  then show ?thesis
    by (cases "endNode w") (auto simp: setEndNode_def Let_def split: option.splits)
qed

subsection \<open>The scan for the lowest node\<close>

lemma better_irrefl: "\<not> better n n"
  by (simp add: better_def)

lemma better_trans: "better a b \<Longrightarrow> better b c \<Longrightarrow> better a c"
  by (auto simp: better_def)

lemma better_neg: "better a b \<Longrightarrow> \<not> better c b \<Longrightarrow> better a c"
  by (auto simp: better_def)

lemma not_better_iff:
  "\<not> better m n \<longleftrightarrow> f n < f m \<or> (f n = f m \<and> h n \<le> h m)"
  by (auto simp: better_def)

lemma scan_extend:
  fixes hp :: "addr \<Rightarrow> node"
  assumes i: "i < length os"
    and before: "\<forall>j < i. better (hp (os ! i)) (hp (os ! j))"
    and least: "\<forall>j < length os. \<not> better (hp (os ! j)) (hp (os ! i))"
  shows "\<exists>k < length (os @ [y]).
           (if better (hp y) (hp (os ! i)) then y else os ! i) = (os @ [y]) ! k \<and>
           (\<forall>j < k. better (hp ((os @ [y]) ! k)) (hp ((os @ [y]) ! j))) \<and>
           (\<forall>j < length (os @ [y]). \<not> better (hp ((os @ [y]) ! j)) (hp ((os @ [y]) ! k)))"
proof -
  have nth_old: "\<And>j. j < length os \<Longrightarrow> (os @ [y]) ! j = os ! j"
    by (simp add: nth_append)
  have nth_new: "(os @ [y]) ! length os = y"
    by simp
  have split: "\<And>j. j < length (os @ [y]) \<Longrightarrow> j < length os \<or> j = length os"
    by auto
  show ?thesis
  proof (cases "better (hp y) (hp (os ! i))")
    case True
    have b: "\<forall>j < length os. better (hp y) (hp (os ! j))"
      using True least better_neg by blast
    have l: "\<forall>j < length os. \<not> better (hp (os ! j)) (hp y)"
      using True least better_trans by blast
    have 1: "length os < length (os @ [y])" by simp
    have 2: "(if better (hp y) (hp (os ! i)) then y else os ! i) = (os @ [y]) ! length os"
      using True by simp
    have 3: "\<forall>j < length os. better (hp ((os @ [y]) ! length os)) (hp ((os @ [y]) ! j))"
      using b nth_old unfolding nth_new by simp
    have 4: "\<forall>j < length (os @ [y]). \<not> better (hp ((os @ [y]) ! j)) (hp ((os @ [y]) ! length os))"
    proof (intro allI impI)
      fix j assume "j < length (os @ [y])"
      from split[OF this] show "\<not> better (hp ((os @ [y]) ! j)) (hp ((os @ [y]) ! length os))"
      proof
        assume "j < length os"
        then show ?thesis using l nth_old unfolding nth_new by simp
      next
        assume "j = length os"
        then show ?thesis using better_irrefl by simp
      qed
    qed
    from 1 2 3 4 show ?thesis by blast
  next
    case False
    have 1: "i < length (os @ [y])" using i by simp
    have 2: "(if better (hp y) (hp (os ! i)) then y else os ! i) = (os @ [y]) ! i"
      using False nth_old[OF i] by simp
    have 3: "\<forall>j < i. better (hp ((os @ [y]) ! i)) (hp ((os @ [y]) ! j))"
    proof (intro allI impI)
      fix j assume j: "j < i"
      then have "j < length os" using i by simp
      then show "better (hp ((os @ [y]) ! i)) (hp ((os @ [y]) ! j))"
        using before j nth_old[OF i] nth_old[of j] by simp
    qed
    have 4: "\<forall>j < length (os @ [y]). \<not> better (hp ((os @ [y]) ! j)) (hp ((os @ [y]) ! i))"
    proof (intro allI impI)
      fix j assume "j < length (os @ [y])"
      from split[OF this] show "\<not> better (hp ((os @ [y]) ! j)) (hp ((os @ [y]) ! i))"
      proof
        assume "j < length os"
        then show ?thesis using least nth_old[OF i] nth_old[of j] by simp
      next
        assume "j = length os"
        then show ?thesis using False nth_old[OF i] by simp
      qed
    qed
    from 1 2 3 4 show ?thesis by blast
  qed
qed

lemma scan_lowest:
  fixes hp :: "addr \<Rightarrow> node"
  assumes "os \<noteq> []"
  shows "\<exists>i < length os.
           fold (\<lambda>n low. if better (hp n) (hp low) then n else low) (tl os) (hd os) = os ! i \<and>
           (\<forall>j < i. better (hp (os ! i)) (hp (os ! j))) \<and>
           (\<forall>j < length os. \<not> better (hp (os ! j)) (hp (os ! i)))"
  using assms
proof (induction os rule: rev_induct)
  case Nil
  then show ?case by simp
next
  case (snoc y ys)
  show ?case
  proof (cases "ys = []")
    case True
    then show ?thesis by (simp add: better_irrefl)
  next
    case False
    from snoc.IH[OF False] obtain i where i: "i < length ys"
      and r: "fold (\<lambda>n low. if better (hp n) (hp low) then n else low) (tl ys) (hd ys) = ys ! i"
      and before: "\<forall>j < i. better (hp (ys ! i)) (hp (ys ! j))"
      and least: "\<forall>j < length ys. \<not> better (hp (ys ! j)) (hp (ys ! i))"
      by blast
    have eq: "fold (\<lambda>n low. if better (hp n) (hp low) then n else low) (tl (ys @ [y])) (hd (ys @ [y]))
        = (if better (hp y) (hp (ys ! i)) then y else ys ! i)"
      using False r by simp
    show ?thesis
      unfolding eq by (rule scan_extend[OF i before least])
  qed
qed

lemma getLowestFNode_scan:
  "os \<noteq> [] \<Longrightarrow> getLowestFNode hp os =
     Some (fold (\<lambda>n low. if better (hp n) (hp low) then n else low) (tl os) (hd os))"
  by (cases os) (simp_all add: getLowestFNode_def better_irrefl)

lemma getLowestFNode_least:
  assumes "os \<noteq> []"
  shows "\<exists>i < length os. getLowestFNode hp os = Some (os ! i) \<and>
           (\<forall>j < i. better (hp (os ! i)) (hp (os ! j))) \<and>
           (\<forall>j < length os. \<not> better (hp (os ! j)) (hp (os ! i)))"
  unfolding getLowestFNode_scan[OF assms] using scan_lowest[OF assms, of hp] by simp

subsection \<open>The fresh node array\<close>

lemma newRow_eq:
  "newRow n r w = w\<lparr> heap := (\<lambda>a. if nextAddr w \<le> a \<and> a < nextAddr w + n
                                  then new_Node (int r) (int (a - nextAddr w)) else heap w a),
                     nextAddr := nextAddr w + n,
                     nodes := nodes w @ [[nextAddr w..<nextAddr w + n]] \<rparr>"
proof (induction n)
  case 0
  show ?case by (rule grid.equality) (auto simp: newRow_def fun_eq_iff)
next
  case (Suc n)
  have "newRow (Suc n) r w = newCell r n (newRow n r w)"
    by (simp add: newRow_def)
  also have "\<dots> = w\<lparr> heap := (\<lambda>a. if nextAddr w \<le> a \<and> a < nextAddr w + Suc n
                                  then new_Node (int r) (int (a - nextAddr w)) else heap w a),
                     nextAddr := nextAddr w + Suc n,
                     nodes := nodes w @ [[nextAddr w..<nextAddr w + Suc n]] \<rparr>"
    unfolding Suc by (rule grid.equality) (auto simp: newCell_def fun_eq_iff)
  finally show ?case .
qed

lemma fold_newRow_eq:
  "fold (newRow n) [0..<k] (w\<lparr> nodes := [] \<rparr>) =
     w\<lparr> heap := freshHeap w k n, nextAddr := nextAddr w + k * n,
        nodes := map (\<lambda>r. [nextAddr w + r * n..<nextAddr w + r * n + n]) [0..<k] \<rparr>"
proof (induction k)
  case 0
  show ?case by (rule grid.equality) (auto simp: freshHeap_def fun_eq_iff)
next
  case (Suc k)
  let ?b = "nextAddr w"
  have h: "(\<lambda>a. if ?b + k * n \<le> a \<and> a < ?b + k * n + n
              then new_Node (int k) (int (a - (?b + k * n))) else freshHeap w k n a)
        = freshHeap w (Suc k) n"
  proof (rule ext)
    fix a
    show "(if ?b + k * n \<le> a \<and> a < ?b + k * n + n
              then new_Node (int k) (int (a - (?b + k * n))) else freshHeap w k n a)
        = freshHeap w (Suc k) n a"
    proof (cases "?b + k * n \<le> a \<and> a < ?b + k * n + n")
      case True
      then obtain c where c: "a = ?b + k * n + c" "c < n"
        by (metis add_less_cancel_left le_Suc_ex)
      have "(a - ?b) div n = k" "(a - ?b) mod n = c" "a - (?b + k * n) = c"
        using c by simp_all
      then show ?thesis using True by (simp add: freshHeap_def)
    next
      case False
      then show ?thesis by (auto simp: freshHeap_def)
    qed
  qed
  have "fold (newRow n) [0..<Suc k] (w\<lparr> nodes := [] \<rparr>)
      = newRow n k (fold (newRow n) [0..<k] (w\<lparr> nodes := [] \<rparr>))" by simp
  also have "\<dots> = w\<lparr> heap := freshHeap w (Suc k) n, nextAddr := nextAddr w + Suc k * n,
        nodes := map (\<lambda>r. [nextAddr w + r * n..<nextAddr w + r * n + n]) [0..<Suc k] \<rparr>"
    unfolding Suc newRow_eq using h by (intro grid.equality) (simp_all add: add.assoc cong: if_cong)
  finally show ?case .
qed

lemma initializeGrid_eq:
  "initializeGrid w =
     w\<lparr> heap := freshHeap w (rounds (rows w)) (rounds (cols w)),
        nextAddr := nextAddr w + rounds (rows w) * rounds (cols w),
        nodes := map (\<lambda>r. [nextAddr w + r * rounds (cols w)..<nextAddr w + r * rounds (cols w) + rounds (cols w)])
                   [0..<rounds (rows w)] \<rparr>"
  unfolding initializeGrid_def by (rule fold_newRow_eq)

lemma concat_blocks:
  "concat (map (\<lambda>r. [b + r * n..<b + r * n + n]) [0..<k]) = [b..<b + k * n]"
proof (induction k)
  case 0
  show ?case by simp
next
  case (Suc k)
  have 1: "[b..<b + k * n] @ [b + k * n..<b + k * n + n] = [b..<b + k * n + n]"
    by (metis le_add1 upt_add_eq_append)
  have 2: "b + k * n + n = b + Suc k * n" by simp
  have "concat (map (\<lambda>r. [b + r * n..<b + r * n + n]) [0..<Suc k])
      = concat (map (\<lambda>r. [b + r * n..<b + r * n + n]) [0..<k]) @ [b + k * n..<b + k * n + n]"
    by simp
  also have "\<dots> = [b..<b + k * n + n]" unfolding Suc 1 ..
  finally show ?case unfolding 2 .
qed

lemma initializeGrid_props:
  assumes "rows w = Some (int R)" "cols w = Some (int C)"
  shows "length (nodes (initializeGrid w)) = R"
    and "r < R \<Longrightarrow> length (nodes (initializeGrid w) ! r) = C"
    and "r < R \<Longrightarrow> c < C \<Longrightarrow> nodes (initializeGrid w) ! r ! c = nextAddr w + r * C + c"
    and "r < R \<Longrightarrow> c < C \<Longrightarrow> heap (initializeGrid w) (nextAddr w + r * C + c) = new_Node (int r) (int c)"
    and "cells (initializeGrid w) = [nextAddr w..<nextAddr w + R * C]"
    and "nextAddr (initializeGrid w) = nextAddr w + R * C"
    and "rows (initializeGrid w) = rows w" "cols (initializeGrid w) = cols w"
    and "startNode (initializeGrid w) = startNode w" "endNode (initializeGrid w) = endNode w"
    and "a < nextAddr w \<Longrightarrow> heap (initializeGrid w) a = heap w a"
proof -
  have rc: "rounds (rows w) = R" "rounds (cols w) = C" using assms by (simp_all add: rounds_def)
  note eq = initializeGrid_eq[of w, unfolded rc]
  show "length (nodes (initializeGrid w)) = R" unfolding eq by simp
  show "r < R \<Longrightarrow> length (nodes (initializeGrid w) ! r) = C" unfolding eq by simp
  show "r < R \<Longrightarrow> c < C \<Longrightarrow> nodes (initializeGrid w) ! r ! c = nextAddr w + r * C + c"
    unfolding eq by simp
  show "r < R \<Longrightarrow> c < C \<Longrightarrow> heap (initializeGrid w) (nextAddr w + r * C + c) = new_Node (int r) (int c)"
  proof -
    assume r: "r < R" and c: "c < C"
    have "r * C + c < R * C"
    proof -
      have "r * C + c < r * C + C" using c by simp
      also have "\<dots> = Suc r * C" by simp
      also have "\<dots> \<le> R * C" using r by (intro mult_le_mono1) simp
      finally show ?thesis .
    qed
    moreover have "(r * C + c) div C = r" "(r * C + c) mod C = c" using c by simp_all
    ultimately show ?thesis unfolding eq by (simp add: freshHeap_def add.assoc)
  qed
  show "cells (initializeGrid w) = [nextAddr w..<nextAddr w + R * C]"
    unfolding eq cells_def by (simp add: concat_blocks)
  show "nextAddr (initializeGrid w) = nextAddr w + R * C" unfolding eq by simp
  show "rows (initializeGrid w) = rows w" "cols (initializeGrid w) = cols w"
    "startNode (initializeGrid w) = startNode w" "endNode (initializeGrid w) = endNode w"
    unfolding eq by simp_all
  show "a < nextAddr w \<Longrightarrow> heap (initializeGrid w) a = heap w a"
    unfolding eq by (simp add: freshHeap_def)
qed

subsection \<open>The neighbours of a node on a well-formed grid\<close>

lemma wf_weight: "wf_grid w \<Longrightarrow> a \<in> set (cells w) \<Longrightarrow> 0 < weight (heap w a)"
  by (simp add: wf_grid_def)

lemma in_cells_iff:
  "a \<in> set (cells w) \<longleftrightarrow> (\<exists>r c. r < length (nodes w) \<and> c < length (nodes w ! r) \<and> a = nodes w ! r ! c)"
proof
  assume "a \<in> set (cells w)"
  then obtain rw where rw: "rw \<in> set (nodes w)" "a \<in> set rw"
    unfolding cells_def set_concat by blast
  then obtain r where r: "r < length (nodes w)" "rw = nodes w ! r"
    by (metis in_set_conv_nth)
  from rw(2) obtain c where "c < length rw" "a = rw ! c"
    by (metis in_set_conv_nth)
  with r show "\<exists>r c. r < length (nodes w) \<and> c < length (nodes w ! r) \<and> a = nodes w ! r ! c"
    by blast
next
  assume "\<exists>r c. r < length (nodes w) \<and> c < length (nodes w ! r) \<and> a = nodes w ! r ! c"
  then obtain r c where "r < length (nodes w)" "c < length (nodes w ! r)" "a = nodes w ! r ! c"
    by blast
  then have "cellAt w r c = Some a" by (simp add: cellAt_def)
  then show "a \<in> set (cells w)" by (rule cellAt_in_cells)
qed

lemma wf_rect:
  assumes "wf_grid w" "r < length (nodes w)" "r' < length (nodes w)"
  shows "length (nodes w ! r) = length (nodes w ! r')"
  using wf_cols[OF assms(1,2)] wf_cols[OF assms(1,3)] by simp

lemma inBounds_pos:
  assumes "wf_grid G" "inBounds G r c"
  shows "nodes G ! nat r ! nat c \<in> set (cells G)"
    and "row (heap G (nodes G ! nat r ! nat c)) = r"
    and "col (heap G (nodes G ! nat r ! nat c)) = c"
proof -
  have r: "nat r < length (nodes G)" and c: "nat c < length (nodes G ! nat r)"
    and nn: "0 \<le> r" "0 \<le> c"
    using assms(2) by (auto simp: inBounds_def)
  show "nodes G ! nat r ! nat c \<in> set (cells G)"
    unfolding in_cells_iff using r c by blast
  show "row (heap G (nodes G ! nat r ! nat c)) = r" "col (heap G (nodes G ! nat r ! nat c)) = c"
    using wf_pos[OF assms(1) r c] nn by simp_all
qed

lemma cell_inBounds:
  assumes "wf_grid G" "b \<in> set (cells G)"
  shows "inBounds G (row (heap G b)) (col (heap G b)) \<and>
         nodes G ! nat (row (heap G b)) ! nat (col (heap G b)) = b"
proof -
  from assms(2) obtain r c where rc: "r < length (nodes G)" "c < length (nodes G ! r)"
    "b = nodes G ! r ! c" unfolding in_cells_iff by blast
  from wf_pos[OF assms(1) rc(1,2)] rc(3)
  have "row (heap G b) = int r" "col (heap G b) = int c" by simp_all
  then show ?thesis using rc by (simp add: inBounds_def)
qed

lemma isValidPosition_wf:
  assumes "wf_grid G"
  shows "isValidPosition (heap G) (nodes G) r c =
     Some (inBounds G r c \<and> \<not> isWall (heap G (nodes G ! nat r ! nat c)))"
proof (cases "0 \<le> r \<and> r < int (length (nodes G))")
  case True
  then have r: "nat r < length (nodes G)" and z: "0 < length (nodes G)" by linarith+
  have len: "length (nodes G ! 0) = length (nodes G ! nat r)"
    using wf_rect[OF assms z r] .
  show ?thesis
    using True len by (auto simp: isValidPosition_def inBounds_def arr_get_def)
next
  case False
  then show ?thesis by (auto simp: isValidPosition_def inBounds_def)
qed

lemma neighborsIn_wf:
  assumes "wf_grid G"
  shows "neighborsIn (heap G) (nodes G) n ds = Some (map (dirCell G n) (filter (okDir G n) ds))"
proof (induction ds)
  case Nil
  show ?case by simp
next
  case (Cons d ds)
  obtain dr dc where d: "d = (dr, dc)" by (cases d)
  show ?case
    unfolding d using Cons isValidPosition_wf[OF assms]
    by (simp add: okDir_def dirCell_def)
qed

lemma dirCell_inj:
  assumes "wf_grid G" "okDir G n d" "okDir G n d'" "dirCell G n d = dirCell G n d'"
  shows "d = d'"
proof -
  have 1: "inBounds G (row n + fst d) (col n + snd d)"
    and 2: "inBounds G (row n + fst d') (col n + snd d')"
    using assms(2,3) by (simp_all add: okDir_def)
  from inBounds_pos(2,3)[OF assms(1) 1] inBounds_pos(2,3)[OF assms(1) 2] assms(4)
  have "row n + fst d = row n + fst d'" "col n + snd d = col n + snd d'"
    unfolding dirCell_def by simp_all
  then show ?thesis by (simp add: prod_eq_iff)
qed

lemma getNeighbors_wf:
  assumes "wf_grid G"
  shows "\<exists>ns. getNeighbors (heap G) (nodes G) n = Some ns \<and> distinct ns \<and>
     set ns = {b \<in> set (cells G). \<not> isWall (heap G b) \<and>
        \<bar>row n - row (heap G b)\<bar> + \<bar>col n - col (heap G b)\<bar> = 1}"
proof -
  let ?ns = "map (dirCell G n) (filter (okDir G n) directions)"
  have 1: "getNeighbors (heap G) (nodes G) n = Some ?ns"
    unfolding getNeighbors_def by (rule neighborsIn_wf[OF assms])
  have "inj_on (dirCell G n) (set (filter (okDir G n) directions))"
    by (rule inj_onI) (use dirCell_inj[OF assms] in auto)
  moreover have "distinct (filter (okDir G n) directions)"
    by (rule distinct_filter) (simp add: directions_def)
  ultimately have 2: "distinct ?ns" by (simp add: distinct_map)
  have 3: "set ?ns = {b \<in> set (cells G). \<not> isWall (heap G b) \<and>
        \<bar>row n - row (heap G b)\<bar> + \<bar>col n - col (heap G b)\<bar> = 1}" (is "_ = ?R")
  proof (rule set_eqI, rule iffI)
    fix b assume "b \<in> set ?ns"
    then obtain d where d: "d \<in> set directions" "okDir G n d" "b = dirCell G n d" by auto
    from d(2) have ib: "inBounds G (row n + fst d) (col n + snd d)"
      and nw: "\<not> isWall (heap G b)" unfolding d(3) by (simp_all add: okDir_def dirCell_def)
    have rc: "row (heap G b) = row n + fst d" "col (heap G b) = col n + snd d"
      and bc: "b \<in> set (cells G)"
      using inBounds_pos[OF assms ib] unfolding d(3) dirCell_def by simp_all
    have "\<bar>fst d\<bar> + \<bar>snd d\<bar> = 1" using d(1) by (auto simp: directions_def)
    then show "b \<in> ?R" using rc bc nw by simp
  next
    fix b assume "b \<in> ?R"
    then have bc: "b \<in> set (cells G)" and nw: "\<not> isWall (heap G b)"
      and ad: "\<bar>row n - row (heap G b)\<bar> + \<bar>col n - col (heap G b)\<bar> = 1" by simp_all
    let ?d = "(row (heap G b) - row n, col (heap G b) - col n)"
    from cell_inBounds[OF assms bc] have ib: "inBounds G (row (heap G b)) (col (heap G b))"
      and eq: "nodes G ! nat (row (heap G b)) ! nat (col (heap G b)) = b" by simp_all
    have "\<bar>row (heap G b) - row n\<bar> + \<bar>col (heap G b) - col n\<bar> = 1"
      using ad by (simp add: abs_minus_commute)
    from abs_sum_one[OF this] have dd: "?d \<in> set directions"
      unfolding directions_def by simp
    have ok: "okDir G n ?d" using ib eq nw by (simp add: okDir_def)
    have "dirCell G n ?d = b" using eq by (simp add: dirCell_def)
    then show "b \<in> set ?ns" using dd ok by force
  qed
  from 1 2 3 show ?thesis by blast
qed

lemma getNeighbors_edges:
  assumes "wf_grid G"
  shows "\<exists>ns. getNeighbors (heap G) (nodes G) (heap G a) = Some ns \<and> distinct ns \<and>
     set ns = {b. edge G a b}"
  using getNeighbors_wf[OF assms, of "heap G a"] by (auto simp: edge_def)

subsection \<open>Layout and single relaxations\<close>

lemma lay_simps [simp]:
  "lay (n\<lparr> g := x1 \<rparr>) = lay n"
  "lay (n\<lparr> h := x2 \<rparr>) = lay n"
  "lay (n\<lparr> f := x3 \<rparr>) = lay n"
  "lay (n\<lparr> parent := x4 \<rparr>) = lay n"
  "lay (n\<lparr> isVisited := x5 \<rparr>) = lay n"
  "lay (n\<lparr> isPath := x6 \<rparr>) = lay n"
  by (simp_all add: lay_def)

lemma lay_fields:
  assumes "lay m = lay n"
  shows "row m = row n" "col m = col n" "isWall m = isWall n" "weight m = weight n"
    "isStart m = isStart n" "isEnd m = isEnd n"
  using assms by (simp_all add: lay_def)

lemma same_layout_refl: "same_layout G G"
  by (simp add: same_layout_def)

lemma same_layout_fields:
  assumes "same_layout G0 G"
  shows "nodes G = nodes G0" "cells G = cells G0"
    "row (heap G a) = row (heap G0 a)" "col (heap G a) = col (heap G0 a)"
    "isWall (heap G a) = isWall (heap G0 a)" "weight (heap G a) = weight (heap G0 a)"
    "isStart (heap G a) = isStart (heap G0 a)" "isEnd (heap G a) = isEnd (heap G0 a)"
proof -
  have l: "lay (heap G a) = lay (heap G0 a)" using assms by (simp add: same_layout_def)
  show "nodes G = nodes G0" using assms by (simp add: same_layout_def)
  then show "cells G = cells G0" by (simp add: cells_def)
  show "row (heap G a) = row (heap G0 a)" "col (heap G a) = col (heap G0 a)"
    "isWall (heap G a) = isWall (heap G0 a)" "weight (heap G a) = weight (heap G0 a)"
    "isStart (heap G a) = isStart (heap G0 a)" "isEnd (heap G a) = isEnd (heap G0 a)"
    using lay_fields[OF l] by simp_all
qed

lemma same_layout_updNode:
  assumes "same_layout G0 G" "\<And>n. lay (u n) = lay n"
  shows "same_layout G0 (updNode G a u)"
  using assms by (simp add: same_layout_def)

lemma same_layout_edge:
  assumes "same_layout G0 G"
  shows "edge G a b = edge G0 a b"
  unfolding edge_def same_layout_fields[OF assms] ..

lemma same_layout_wf:
  assumes "same_layout G0 G" "wf_grid G0"
  shows "wf_grid G"
  using assms(2) unfolding wf_grid_def same_layout_fields[OF assms(1)]
  using assms(1) by (simp add: same_layout_def)

lemma same_layout_heur:
  assumes "same_layout G0 G"
  shows "calculateHeuristic (heap G a) (heap G b) = calculateHeuristic (heap G0 a) (heap G0 b)"
  unfolding calculateHeuristic_def same_layout_fields[OF assms] ..

text \<open>The result of one relaxation.\<close>

lemma relax_cases:
  obtains (skip) "relax cur e nb (A, G) = (A, G)"
      "nb \<in> set (closedSet A) \<or> isWall (heap G nb) \<or>
       \<not> g (heap G cur) + enat (weight (heap G nb)) < g (heap G nb)"
  | (upd) A' where "nb \<notin> set (closedSet A)" "\<not> isWall (heap G nb)"
      "g (heap G cur) + enat (weight (heap G nb)) < g (heap G nb)"
      "relax cur e nb (A, G) = (A', updNode G nb (\<lambda>n. n\<lparr> parent := Some cur,
           g := g (heap G cur) + enat (weight (heap G nb)),
           h := calculateHeuristic (heap G nb) (heap G e),
           f := g (heap G cur) + enat (weight (heap G nb))
                  + enat (calculateHeuristic (heap G nb) (heap G e)) \<rparr>))"
      "closedSet A' = closedSet A" "set (openSet A') = insert nb (set (openSet A))"
      "distinct (openSet A) \<longrightarrow> distinct (openSet A')"
      "isRunning A' = isRunning A"
      "openSet A' = openSet A \<or> openSet A' = openSet A @ [nb]"
      "path A' = path A"
proof (cases "nb \<in> set (closedSet A) \<or> isWall (heap G nb) \<or>
    \<not> g (heap G cur) + enat (weight (heap G nb)) < g (heap G nb)")
  case True
  then have "relax cur e nb (A, G) = (A, G)" by (auto simp: relax_def Let_def)
  then show ?thesis using True by (rule skip)
next
  case False
  let ?A' = "if nb \<in> set (openSet A) then A else A\<lparr> openSet := openSet A @ [nb] \<rparr>"
  show ?thesis
  proof (rule upd[of ?A'])
    show "relax cur e nb (A, G) = (?A', updNode G nb (\<lambda>n. n\<lparr> parent := Some cur,
           g := g (heap G cur) + enat (weight (heap G nb)),
           h := calculateHeuristic (heap G nb) (heap G e),
           f := g (heap G cur) + enat (weight (heap G nb))
                  + enat (calculateHeuristic (heap G nb) (heap G e)) \<rparr>))"
      using False by (simp add: relax_def Let_def)
  qed (use False in \<open>auto\<close>)
qed

subsection \<open>Relaxations keep the search invariant\<close>

lemma search_invD:
  assumes "search_inv G0 s (A, G)"
  shows "same_layout G0 G" "distinct (openSet A)" "set (openSet A) \<inter> set (closedSet A) = {}"
    "seen A \<subseteq> insert s (set (cells G0))" "s \<in> seen A" "g (heap G s) = 0"
    "s \<in> set (cells G0) \<Longrightarrow> parent (heap G s) = None"
    "\<And>a. a \<in> seen A \<Longrightarrow> a \<noteq> s \<Longrightarrow>
        \<exists>p. parent (heap G a) = Some p \<and> p \<in> set (closedSet A) \<and> edge G0 p a \<and>
             g (heap G a) = g (heap G p) + enat (weight (heap G a))"
    "\<And>a. a \<in> seen A \<Longrightarrow> g (heap G a) \<noteq> \<infinity>"
  using assms unfolding search_inv_def by simp_all

lemma search_invI:
  assumes "same_layout G0 G" "distinct (openSet A)" "set (openSet A) \<inter> set (closedSet A) = {}"
    "seen A \<subseteq> insert s (set (cells G0))" "s \<in> seen A" "g (heap G s) = 0"
    "s \<in> set (cells G0) \<Longrightarrow> parent (heap G s) = None"
    "\<And>a. a \<in> seen A \<Longrightarrow> a \<noteq> s \<Longrightarrow>
        \<exists>p. parent (heap G a) = Some p \<and> p \<in> set (closedSet A) \<and> edge G0 p a \<and>
             g (heap G a) = g (heap G p) + enat (weight (heap G a))"
    "\<And>a. a \<in> seen A \<Longrightarrow> g (heap G a) \<noteq> \<infinity>"
  shows "search_inv G0 s (A, G)"
  using assms unfolding search_inv_def by simp

lemma relax_search_inv:
  assumes inv: "search_inv G0 s (A, G)" and cur: "cur \<in> set (closedSet A)"
    and ed: "edge G0 cur nb"
  shows "search_inv G0 s (relax cur e nb (A, G))"
proof (cases rule: relax_cases[of cur e nb A G])
  case skip
  then show ?thesis using inv by simp
next
  case (upd A')
  note I = search_invD[OF inv]
  define t where "t = g (heap G cur) + enat (weight (heap G nb))"
  define n' where "n' = (heap G nb)\<lparr> parent := Some cur, g := t,
      h := calculateHeuristic (heap G nb) (heap G e),
      f := t + enat (calculateHeuristic (heap G nb) (heap G e)) \<rparr>"
  define G' where "G' = updNode G nb (\<lambda>n. n\<lparr> parent := Some cur, g := t,
      h := calculateHeuristic (heap G nb) (heap G e),
      f := t + enat (calculateHeuristic (heap G nb) (heap G e)) \<rparr>)"
  have res: "relax cur e nb (A, G) = (A', G')" using upd(4) by (simp add: G'_def t_def)
  have hp_nb: "heap G' nb = n'" by (simp add: G'_def n'_def)
  have hp_other: "\<And>a. a \<noteq> nb \<Longrightarrow> heap G' a = heap G a" by (simp add: G'_def)
  have n'_fields: "parent n' = Some cur" "g n' = t" "weight n' = weight (heap G nb)"
    by (simp_all add: n'_def)
  have lt: "t < g (heap G nb)" using upd(3) by (simp add: t_def)
  have cur_seen: "cur \<in> seen A" using cur by (simp add: seen_def)
  have cur_fin: "g (heap G cur) \<noteq> \<infinity>" using I(9)[OF cur_seen] .
  have t_fin: "t \<noteq> \<infinity>" using cur_fin by (auto simp: t_def)
  have nb_s: "nb \<noteq> s"
  proof
    assume "nb = s"
    then have "g (heap G nb) = 0" using I(6) by simp
    then show False using lt by simp
  qed
  have nb_cur: "cur \<noteq> nb" using cur upd(1) by blast
  have seen': "seen A' = insert nb (seen A)" using upd(5,6) by (simp add: seen_def)
  have nb_cell: "nb \<in> set (cells G0)" using ed by (simp add: edge_def)
  show ?thesis unfolding res
  proof (rule search_invI)
    show "same_layout G0 G'" unfolding G'_def
      by (rule same_layout_updNode[OF I(1)]) simp
    show "distinct (openSet A')" using upd(7) I(2) by simp
    show "set (openSet A') \<inter> set (closedSet A') = {}" using upd(1,5,6) I(3) by simp
    show "seen A' \<subseteq> insert s (set (cells G0))" using seen' I(4) nb_cell by auto
    show "s \<in> seen A'" using seen' I(5) by simp
    show "g (heap G' s) = 0" using hp_other[of s] nb_s I(6) by simp
    show "s \<in> set (cells G0) \<Longrightarrow> parent (heap G' s) = None"
      using hp_other[of s] nb_s I(7) by simp
  next
    fix a assume a: "a \<in> seen A'" and as: "a \<noteq> s"
    show "\<exists>p. parent (heap G' a) = Some p \<and> p \<in> set (closedSet A') \<and> edge G0 p a \<and>
             g (heap G' a) = g (heap G' p) + enat (weight (heap G' a))"
    proof (cases "a = nb")
      case True
      have "parent (heap G' a) = Some cur" using True hp_nb n'_fields by simp
      moreover have "cur \<in> set (closedSet A')" using cur upd(5) by simp
      moreover have "edge G0 cur a" using ed True by simp
      moreover have "g (heap G' a) = g (heap G' cur) + enat (weight (heap G' a))"
        using True hp_nb n'_fields hp_other[of cur] nb_cur by (simp add: t_def)
      ultimately show ?thesis by blast
    next
      case False
      then have "a \<in> seen A" using a seen' by simp
      from I(8)[OF this as] obtain p where p: "parent (heap G a) = Some p"
        "p \<in> set (closedSet A)" "edge G0 p a"
        "g (heap G a) = g (heap G p) + enat (weight (heap G a))" by blast
      have "p \<noteq> nb" using p(2) upd(1) by blast
      then show ?thesis using p False hp_other upd(5) by simp
    qed
  next
    fix a assume a: "a \<in> seen A'"
    show "g (heap G' a) \<noteq> \<infinity>"
    proof (cases "a = nb")
      case True
      then show ?thesis using hp_nb n'_fields t_fin by simp
    next
      case False
      then have "a \<in> seen A" using a seen' by simp
      then show ?thesis using I(9) hp_other False by simp
    qed
  qed
qed

lemma relax_closed: "closedSet (fst (relax cur e nb (A, G))) = closedSet A"
  by (cases rule: relax_cases[of cur e nb A G]) simp_all

lemma relax_running: "isRunning (fst (relax cur e nb (A, G))) = isRunning A"
  by (cases rule: relax_cases[of cur e nb A G]) simp_all

lemma relax_path: "path (fst (relax cur e nb (A, G))) = path A"
  by (cases rule: relax_cases[of cur e nb A G]) simp_all

lemma fold_relax_search_inv:
  assumes "search_inv G0 s (A, G)" "cur \<in> set (closedSet A)" "\<forall>nb \<in> set ns. edge G0 cur nb"
  shows "search_inv G0 s (fold (relax cur e) ns (A, G)) \<and>
         closedSet (fst (fold (relax cur e) ns (A, G))) = closedSet A \<and>
         isRunning (fst (fold (relax cur e) ns (A, G))) = isRunning A \<and>
         path (fst (fold (relax cur e) ns (A, G))) = path A"
  using assms
proof (induction ns arbitrary: A G)
  case Nil
  then show ?case by simp
next
  case (Cons nb ns)
  obtain A1 G1 where r: "relax cur e nb (A, G) = (A1, G1)" by (cases "relax cur e nb (A, G)")
  have 1: "search_inv G0 s (A1, G1)"
    using relax_search_inv[OF Cons.prems(1,2), of nb e] Cons.prems(3) r by simp
  have 2: "closedSet A1 = closedSet A" using relax_closed[of cur e nb A G] r by simp
  have 3: "isRunning A1 = isRunning A" using relax_running[of cur e nb A G] r by simp
  have 4: "path A1 = path A" using relax_path[of cur e nb A G] r by simp
  have "cur \<in> set (closedSet A1)" using Cons.prems(2) 2 by simp
  from Cons.IH[OF 1 this] Cons.prems(3) show ?case using r 2 3 4 by simp
qed

subsection \<open>One round of the loop; the loop ends\<close>

lemma getLowestFNode_mem:
  assumes "os \<noteq> []"
  shows "\<exists>cur. getLowestFNode hp os = Some cur \<and> cur \<in> set os \<and>
           (\<forall>b \<in> set os. \<not> better (hp b) (hp cur))"
proof -
  from getLowestFNode_least[OF assms, of hp] obtain i where
    i: "i < length os" "getLowestFNode hp os = Some (os ! i)"
    and l: "\<forall>j < length os. \<not> better (hp (os ! j)) (hp (os ! i))"
    by blast
  have "\<forall>b \<in> set os. \<not> better (hp b) (hp (os ! i))"
    using l by (metis in_set_conv_nth)
  then show ?thesis using i by auto
qed

lemma updNode_id [simp]: "updNode G a (\<lambda>n. n) = G"
  by (simp add: updNode_def)

text \<open>The shape of one round of the loop.\<close>

lemma findPath_step_goal:
  assumes "getLowestFNode (heap G) (openSet A) = Some cur" "cur = e"
  shows "findPath_step e (st, A, G) = (Reached, A, G)"
  using assms by (simp add: findPath_step_def)

lemma findPath_step_expand:
  assumes "getLowestFNode (heap G) (openSet A) = Some cur" "cur \<noteq> e"
  obtains A2 u where
    "u = (\<lambda>n. n) \<or> u = (\<lambda>n. n\<lparr> isVisited := True \<rparr>)"
    "openSet A2 = remove1 cur (openSet A)" "closedSet A2 = closedSet A @ [cur]"
    "isRunning A2 = isRunning A" "path A2 = path A"
    "findPath_step e (st, A, G) =
      (case getNeighbors (heap (updNode G cur u)) (nodes (updNode G cur u)) (heap (updNode G cur u) cur) of
         None \<Rightarrow> (Crashed, A2, updNode G cur u)
       | Some ns \<Rightarrow> (case fold (relax cur e) ns (A2, updNode G cur u) of
                      (A3, G3) \<Rightarrow> (Searching, A3, G3)))"
proof (cases "\<not> isStart (heap G cur) \<and> \<not> isEnd (heap G cur)")
  case True
  let ?A1 = "A\<lparr> openSet := removeFromArray (openSet A) cur,
                closedSet := closedSet A @ [cur] \<rparr>"
  let ?A2 = "?A1\<lparr> visitedNodes := visitedNodes ?A1 @ [cur],
                  nodesExplored := Suc (nodesExplored ?A1) \<rparr>"
  show ?thesis
  proof (rule that[of "\<lambda>n. n\<lparr> isVisited := True \<rparr>" ?A2])
    show "findPath_step e (st, A, G) =
      (case getNeighbors (heap (updNode G cur (\<lambda>n. n\<lparr> isVisited := True \<rparr>)))
              (nodes (updNode G cur (\<lambda>n. n\<lparr> isVisited := True \<rparr>)))
              (heap (updNode G cur (\<lambda>n. n\<lparr> isVisited := True \<rparr>)) cur) of
         None \<Rightarrow> (Crashed, ?A2, updNode G cur (\<lambda>n. n\<lparr> isVisited := True \<rparr>))
       | Some ns \<Rightarrow> (case fold (relax cur e) ns (?A2, updNode G cur (\<lambda>n. n\<lparr> isVisited := True \<rparr>)) of
                      (A3, G3) \<Rightarrow> (Searching, A3, G3)))"
      using assms True unfolding findPath_step_def by (simp add: Let_def)
  qed (simp_all add: removeFromArray_def)
next
  case False
  let ?A2 = "A\<lparr> openSet := removeFromArray (openSet A) cur,
                closedSet := closedSet A @ [cur] \<rparr>"
  show ?thesis
  proof (rule that[of "\<lambda>n. n" ?A2])
    show "findPath_step e (st, A, G) =
      (case getNeighbors (heap (updNode G cur (\<lambda>n. n))) (nodes (updNode G cur (\<lambda>n. n)))
              (heap (updNode G cur (\<lambda>n. n)) cur) of
         None \<Rightarrow> (Crashed, ?A2, updNode G cur (\<lambda>n. n))
       | Some ns \<Rightarrow> (case fold (relax cur e) ns (?A2, updNode G cur (\<lambda>n. n)) of
                      (A3, G3) \<Rightarrow> (Searching, A3, G3)))"
    proof -
      have c: "(\<not> isStart (heap G cur) \<and> \<not> isEnd (heap G cur)) = False" using False by simp
      show ?thesis
        using assms unfolding findPath_step_def updNode_id by (simp add: Let_def c)
    qed
  qed (simp_all add: removeFromArray_def)
qed

lemma pop_search_inv:
  assumes inv: "search_inv G0 s (A, G)" and cur: "cur \<in> set (openSet A)"
    and o2: "openSet A2 = remove1 cur (openSet A)" and c2: "closedSet A2 = closedSet A @ [cur]"
    and u: "u = (\<lambda>n. n) \<or> u = (\<lambda>n. n\<lparr> isVisited := True \<rparr>)"
  shows "search_inv G0 s (A2, updNode G cur u)"
proof -
  note I = search_invD[OF inv]
  have uf: "\<And>n. g (u n) = g n \<and> parent (u n) = parent n \<and> weight (u n) = weight n \<and> lay (u n) = lay n"
    using u by auto
  have hp: "\<And>a. g (heap (updNode G cur u) a) = g (heap G a) \<and>
      parent (heap (updNode G cur u) a) = parent (heap G a) \<and>
      weight (heap (updNode G cur u) a) = weight (heap G a)"
    using uf by simp
  have seen2: "seen A2 = seen A"
    using cur I(2) unfolding seen_def o2 c2 by auto
  show ?thesis
  proof (rule search_invI)
    show "same_layout G0 (updNode G cur u)"
      by (rule same_layout_updNode[OF I(1)]) (simp add: uf)
    show "distinct (openSet A2)" using I(2) o2 by simp
    show "set (openSet A2) \<inter> set (closedSet A2) = {}"
      using I(2,3) unfolding o2 c2 by auto
    show "seen A2 \<subseteq> insert s (set (cells G0))" using I(4) seen2 by simp
    show "s \<in> seen A2" using I(5) seen2 by simp
    show "g (heap (updNode G cur u) s) = 0" using I(6) hp by simp
    show "s \<in> set (cells G0) \<Longrightarrow> parent (heap (updNode G cur u) s) = None"
      using I(7) hp by simp
  next
    fix a assume "a \<in> seen A2" "a \<noteq> s"
    then have "a \<in> seen A" "a \<noteq> s" using seen2 by simp_all
    from I(8)[OF this] obtain p where p: "parent (heap G a) = Some p"
        "p \<in> set (closedSet A)" "edge G0 p a"
        "g (heap G a) = g (heap G p) + enat (weight (heap G a))" by blast
    then show "\<exists>p. parent (heap (updNode G cur u) a) = Some p \<and> p \<in> set (closedSet A2) \<and>
        edge G0 p a \<and>
        g (heap (updNode G cur u) a) = g (heap (updNode G cur u) p) + enat (weight (heap (updNode G cur u) a))"
      unfolding c2 using hp by simp
  next
    fix a assume "a \<in> seen A2"
    then show "g (heap (updNode G cur u) a) \<noteq> \<infinity>" using I(9) seen2 hp by simp
  qed
qed

lemma step_loop_inv:
  assumes wf: "wf_grid G0" and inv: "loop_inv G0 s e \<sigma>" and cond: "findPath_cond \<sigma>"
  shows "loop_inv G0 s e (findPath_step e \<sigma>) \<and>
         loop_measure G0 s (findPath_step e \<sigma>) < loop_measure G0 s \<sigma>"
proof -
  obtain st A G where \<sigma>: "\<sigma> = (st, A, G)" by (cases \<sigma>)
  have st: "st = Searching" and ne: "openSet A \<noteq> []" and run: "isRunning A"
    using cond by (simp_all add: \<sigma> findPath_cond_def)
  have pe: "path A = []" and ec: "e \<notin> set (closedSet A)"
    using inv by (simp_all add: \<sigma> loop_inv_def)
  have sinv: "search_inv G0 s (A, G)" using inv by (simp add: \<sigma> loop_inv_def)
  note I = search_invD[OF sinv]
  from getLowestFNode_mem[OF ne, of "heap G"] obtain cur where
    cur: "getLowestFNode (heap G) (openSet A) = Some cur" "cur \<in> set (openSet A)" by blast
  show ?thesis
  proof (cases "cur = e")
    case True
    have "findPath_step e \<sigma> = (Reached, A, G)"
      unfolding \<sigma> by (rule findPath_step_goal[OF cur(1) True])
    then show ?thesis using sinv run cur(2) True st pe ec
      by (simp add: \<sigma> loop_inv_def loop_measure_def)
  next
    case False
    from findPath_step_expand[OF cur(1) False, of st] obtain A2 u where
      u: "u = (\<lambda>n. n) \<or> u = (\<lambda>n. n\<lparr> isVisited := True \<rparr>)"
      and o2: "openSet A2 = remove1 cur (openSet A)"
      and c2: "closedSet A2 = closedSet A @ [cur]"
      and r2: "isRunning A2 = isRunning A"
      and p2: "path A2 = path A"
      and step: "findPath_step e (st, A, G) =
        (case getNeighbors (heap (updNode G cur u)) (nodes (updNode G cur u)) (heap (updNode G cur u) cur) of
           None \<Rightarrow> (Crashed, A2, updNode G cur u)
         | Some ns \<Rightarrow> (case fold (relax cur e) ns (A2, updNode G cur u) of
                        (A3, G3) \<Rightarrow> (Searching, A3, G3)))"
      by blast
    define G2 where "G2 = updNode G cur u"
    have inv2: "search_inv G0 s (A2, G2)"
      unfolding G2_def by (rule pop_search_inv[OF sinv cur(2) o2 c2 u])
    have lay2: "same_layout G0 G2" using search_invD(1)[OF inv2] .
    have wf2: "wf_grid G2" by (rule same_layout_wf[OF lay2 wf])
    from getNeighbors_edges[OF wf2, of cur] obtain ns where
      ns: "getNeighbors (heap G2) (nodes G2) (heap G2 cur) = Some ns"
      "set ns = {b. edge G2 cur b}" by blast
    have edges: "\<forall>nb \<in> set ns. edge G0 cur nb"
      using ns(2) same_layout_edge[OF lay2] by simp
    have cur2: "cur \<in> set (closedSet A2)" using c2 by simp
    obtain A3 G3 where f3: "fold (relax cur e) ns (A2, G2) = (A3, G3)"
      by (cases "fold (relax cur e) ns (A2, G2)")
    from fold_relax_search_inv[OF inv2 cur2 edges, of e] f3
    have inv3: "search_inv G0 s (A3, G3)" and c3: "closedSet A3 = closedSet A2"
      and r3: "isRunning A3 = isRunning A2" and p3: "path A3 = path A2" by simp_all
    have res: "findPath_step e \<sigma> = (Searching, A3, G3)"
      unfolding \<sigma> step using ns(1) f3 unfolding G2_def by simp
    have "cur \<in> insert s (set (cells G0))" using I(4) cur(2) by (auto simp: seen_def)
    moreover have "cur \<notin> set (closedSet A)" using I(3) cur(2) by blast
    ultimately have "card (insert s (set (cells G0)) - set (closedSet A3))
        < card (insert s (set (cells G0)) - set (closedSet A))"
      unfolding c3 c2 by (intro psubset_card_mono) auto
    then show ?thesis
      unfolding res using inv3 r3 r2 p3 p2 pe ec c3 c2 False run st
      by (simp add: \<sigma> loop_inv_def loop_measure_def)
  qed
qed

lemma loop_terminates:
  assumes "wf_grid G0" "loop_inv G0 s e \<sigma>"
  shows "\<exists>\<tau>. while_option findPath_cond (findPath_step e) \<sigma> = Some \<tau>"
  by (rule measure_while_option_Some[where P = "loop_inv G0 s e" and f = "loop_measure G0 s"])
     (use assms step_loop_inv in auto)

lemma loop_result_inv:
  assumes "wf_grid G0" "loop_inv G0 s e \<sigma>"
    "while_option findPath_cond (findPath_step e) \<sigma> = Some \<tau>"
  shows "loop_inv G0 s e \<tau> \<and> \<not> findPath_cond \<tau>"
proof
  show "loop_inv G0 s e \<tau>"
    by (rule while_option_rule[where P = "loop_inv G0 s e", OF _ assms(3) assms(2)])
       (use step_loop_inv[OF assms(1)] in blast)
  show "\<not> findPath_cond \<tau>" using while_option_stop[OF assms(3)] .
qed

subsection \<open>The open array in one round\<close>

lemma remove1_nth_first:
  "i < length xs \<Longrightarrow> \<forall>j < i. xs ! j \<noteq> xs ! i \<Longrightarrow>
     remove1 (xs ! i) xs = take i xs @ drop (Suc i) xs"
proof (induction xs arbitrary: i)
  case Nil
  then show ?case by simp
next
  case (Cons x xs)
  show ?case
  proof (cases i)
    case 0
    then show ?thesis by simp
  next
    case (Suc k)
    have k: "k < length xs" using Cons.prems(1) Suc by simp
    have d: "\<forall>j < k. xs ! j \<noteq> xs ! k"
    proof (intro allI impI)
      fix j assume "j < k"
      then have "Suc j < i" using Suc by simp
      then have "(x # xs) ! Suc j \<noteq> (x # xs) ! i" using Cons.prems(2) by blast
      then show "xs ! j \<noteq> xs ! k" using Suc by simp
    qed
    have "0 < i" using Suc by simp
    then have "(x # xs) ! 0 \<noteq> (x # xs) ! i" using Cons.prems(2) by blast
    then have x: "x \<noteq> xs ! k" using Suc by simp
    show ?thesis using Cons.IH[OF k d] x Suc by simp
  qed
qed

lemma neighborsIn_cong:
  assumes "\<And>a. isWall (hp a) = isWall (hp' a)" "row n = row n'" "col n = col n'"
  shows "neighborsIn hp grd n ds = neighborsIn hp' grd n' ds"
proof (induction ds)
  case Nil
  then show ?case by simp
next
  case (Cons d ds)
  obtain dr dc where d: "d = (dr, dc)" by (cases d)
  have v: "\<And>r c. isValidPosition hp grd r c = isValidPosition hp' grd r c"
    using assms(1) by (auto simp: isValidPosition_def split: option.splits)
  show ?case unfolding d by (simp only: neighborsIn.simps assms(2,3) v Cons.IH)
qed

lemma getNeighbors_marked:
  assumes "u = (\<lambda>n. n) \<or> u = (\<lambda>n. n\<lparr> isVisited := True \<rparr>)"
  shows "getNeighbors (heap (updNode G cur u)) (nodes (updNode G cur u)) (heap (updNode G cur u) cur)
       = getNeighbors (heap G) (nodes G) (heap G cur)"
proof -
  have 1: "\<And>a. isWall (heap (updNode G cur u) a) = isWall (heap G a)"
    using assms by (auto simp: updNode_def)
  have 2: "row (heap (updNode G cur u) cur) = row (heap G cur)"
    "col (heap (updNode G cur u) cur) = col (heap G cur)"
    using assms by (auto simp: updNode_def)
  have 3: "nodes (updNode G cur u) = nodes G" by (simp add: updNode_def)
  show ?thesis unfolding getNeighbors_def 3 by (rule neighborsIn_cong[OF 1 2])
qed

text \<open>\<open>relax\<close> leaves the open array as it is or appends the neighbour to it.\<close>

lemma relax_open:
  "\<exists>A1 G1 n1. relax cur e nb (A, G) = (A1, G1) \<and> closedSet A1 = closedSet A \<and>
     openSet A1 = openSet A @ n1 \<and>
     (n1 = [] \<or> (n1 = [nb] \<and> nb \<notin> set (openSet A) \<and> nb \<notin> set (closedSet A)))"
  by (simp add: relax_def Let_def)

lemma fold_relax_open:
  "fold (relax cur e) ns (A, G) = (A', G') \<Longrightarrow>
   \<exists>new. openSet A' = openSet A @ new \<and> closedSet A' = closedSet A \<and> distinct new \<and>
      set new \<inter> set (openSet A) = {} \<and> set new \<inter> set (closedSet A) = {} \<and> subseq new ns"
proof (induction ns arbitrary: A G)
  case Nil
  then show ?case by simp
next
  case (Cons nb ns)
  from relax_open[of cur e nb A G] obtain A1 G1 n1 where
    r: "relax cur e nb (A, G) = (A1, G1)" "closedSet A1 = closedSet A"
    "openSet A1 = openSet A @ n1"
    "n1 = [] \<or> (n1 = [nb] \<and> nb \<notin> set (openSet A) \<and> nb \<notin> set (closedSet A))"
    by blast
  have "fold (relax cur e) ns (A1, G1) = (A', G')" using Cons.prems r(1) by simp
  from Cons.IH[OF this] obtain new where
    n: "openSet A' = openSet A1 @ new" "closedSet A' = closedSet A1" "distinct new"
    "set new \<inter> set (openSet A1) = {}" "set new \<inter> set (closedSet A1) = {}" "subseq new ns"
    by blast
  show ?case
  proof (cases "n1 = []")
    case True
    have "subseq new (nb # ns)" using n(6) by (rule list_emb_Cons)
    then show ?thesis using n r(2,3) True by (intro exI[where x = new]) simp
  next
    case False
    then have n1: "n1 = [nb]" "nb \<notin> set (openSet A)" "nb \<notin> set (closedSet A)"
      using r(4) by simp_all
    have nn: "nb \<notin> set new" using n(4) r(3) n1(1) by auto
    have 1: "openSet A' = openSet A @ (nb # new)" using n(1) r(3) n1(1) by simp
    have 2: "distinct (nb # new)" using nn n(3) by simp
    have 3: "set (nb # new) \<inter> set (openSet A) = {}" using n(4) r(3) n1(2) by auto
    have 4: "set (nb # new) \<inter> set (closedSet A) = {}" using n(5) r(2) n1(3) by auto
    have 5: "subseq (nb # new) (nb # ns)" using n(6) by simp
    from 1 2 3 4 5 n(2) r(2) show ?thesis by (intro exI[where x = "nb # new"]) simp
  qed
qed


subsection \<open>The start of the search and the rebuilt path\<close>

lemma resetPathfinding_wf:
  assumes "wf_grid G"
  shows "resetPathfinding G = Returns (G\<lparr> heap := (\<lambda>a. if a \<in> set (cells G)
     then (heap G a)\<lparr> isVisited := False, isPath := False, g := \<infinity>, h := 0, f := \<infinity>, parent := None \<rparr>
     else heap G a) \<rparr>)"
  unfolding resetPathfinding_def by (rule forEachCell_wf[OF assms])

lemma findPath_unfold:
  assumes "\<not> isRunning A" "startNode G = Ref s" "endNode G = Ref e" "wf_grid G"
  shows "findPath A G =
    (case while_option findPath_cond (findPath_step e) (Searching, initAStar A s, initGrid G s e) of
       None \<Rightarrow> None
     | Some (st, A3, G3) \<Rightarrow>
        (case st of
           Reached \<Rightarrow>
             (case reconstructPath (heap G3) e of
                None \<Rightarrow> None
              | Some p \<Rightarrow>
                  Some (ReturnsResult
                          \<lparr> r_path = p, r_visitedNodes = visitedNodes A3,
                            r_pathLength = length p,
                            r_nodesExplored = nodesExplored A3 \<rparr>,
                        A3\<lparr> path := p, isRunning := False \<rparr>, G3))
         | Searching \<Rightarrow> Some (ReturnsNull, A3\<lparr> isRunning := False \<rparr>, G3)
         | Crashed \<Rightarrow> Some (ThrowsError TypeError, A3, G3)))"
  using assms(1-3) unfolding findPath_def resetPathfinding_wf[OF assms(4)] initAStar_def initGrid_def
  by (simp add: Let_def outGrid_def)

lemma initGrid_props:
  assumes "wf_grid G"
  shows "same_layout G (initGrid G s e)"
    and "g (heap (initGrid G s e) s) = 0"
    and "s \<in> set (cells G) \<Longrightarrow> parent (heap (initGrid G s e) s) = None"
    and "a \<in> set (cells G) \<Longrightarrow> a \<noteq> s \<Longrightarrow> g (heap (initGrid G s e) a) = \<infinity>"
    and "f (heap (initGrid G s e) s) = enat (calculateHeuristic (heap G s) (heap G e))"
    and "h (heap (initGrid G s e) s) = calculateHeuristic (heap G s) (heap G e)"
proof -
  let ?G1 = "G\<lparr> heap := (\<lambda>a. if a \<in> set (cells G)
     then (heap G a)\<lparr> isVisited := False, isPath := False, g := \<infinity>, h := 0, f := \<infinity>, parent := None \<rparr>
     else heap G a) \<rparr>"
  have 1: "outGrid (resetPathfinding G) = ?G1"
    unfolding resetPathfinding_wf[OF assms] by (simp add: outGrid_def)
  have l1: "same_layout G ?G1" by (simp add: same_layout_def)
  have ig: "initGrid G s e = updNode ?G1 s (\<lambda>n. n\<lparr> g := 0,
      h := calculateHeuristic (heap ?G1 s) (heap ?G1 e),
      f := enat (calculateHeuristic (heap ?G1 s) (heap ?G1 e)) \<rparr>)"
    unfolding initGrid_def 1 by (simp add: Let_def)
  show "same_layout G (initGrid G s e)"
    unfolding ig by (rule same_layout_updNode[OF l1]) simp
  show "g (heap (initGrid G s e) s) = 0" unfolding ig by simp
  show "s \<in> set (cells G) \<Longrightarrow> parent (heap (initGrid G s e) s) = None" unfolding ig by simp
  show "a \<in> set (cells G) \<Longrightarrow> a \<noteq> s \<Longrightarrow> g (heap (initGrid G s e) a) = \<infinity>"
    unfolding ig by simp
  have hv: "calculateHeuristic (heap ?G1 s) (heap ?G1 e) = calculateHeuristic (heap G s) (heap G e)"
    by (rule same_layout_heur[OF l1])
  show "f (heap (initGrid G s e) s) = enat (calculateHeuristic (heap G s) (heap G e))"
    unfolding ig hv by simp
  show "h (heap (initGrid G s e) s) = calculateHeuristic (heap G s) (heap G e)"
    unfolding ig hv by simp
qed

lemma init_loop_inv:
  assumes "wf_grid G"
  shows "loop_inv G s e (Searching, initAStar A s, initGrid G s e)"
proof -
  have A: "openSet (initAStar A s) = [s]" "closedSet (initAStar A s) = []"
    "isRunning (initAStar A s)" "path (initAStar A s) = []"
    by (simp_all add: initAStar_def AStar_reset_def)
  have "search_inv G s (initAStar A s, initGrid G s e)"
  proof (rule search_invI)
    show "same_layout G (initGrid G s e)" by (rule initGrid_props(1)[OF assms(1)])
    show "g (heap (initGrid G s e) s) = 0" by (rule initGrid_props(2)[OF assms(1)])
    show "s \<in> set (cells G) \<Longrightarrow> parent (heap (initGrid G s e) s) = None"
      by (rule initGrid_props(3)[OF assms])
    show "\<And>a. a \<in> seen (initAStar A s) \<Longrightarrow> g (heap (initGrid G s e) a) \<noteq> \<infinity>"
      using initGrid_props(2)[OF assms(1), of s e] by (simp add: seen_def A zero_enat_def)
  qed (simp_all add: seen_def A)
  then show ?thesis by (simp add: loop_inv_def A)
qed

lemma walk_nonempty: "walk G p \<Longrightarrow> p \<noteq> []"
  by (cases p) simp_all

lemma walk_snoc: "walk G p \<Longrightarrow> edge G (last p) a \<Longrightarrow> walk G (p @ [a])"
proof (induction G p rule: walk.induct)
  case (1 G)
  then show ?case by simp
next
  case (2 G b)
  then show ?case by simp
next
  case (3 G b c p)
  then show ?case by simp
qed

text \<open>
  Every known node is reached from the start by a walk. When the start is a cell of the
  grid, following \<open>parent\<close> from a known node ends at the start and yields such a walk,
  a simple one; the obstacle flag of the start plays no part in it.
\<close>

lemma known_walk:
  assumes inv: "search_inv G0 s (A, G)" and wf: "wf_grid G0"
  shows "a \<in> seen A \<Longrightarrow> g (heap G a) = enat n \<Longrightarrow>
    \<exists>p. walk G0 p \<and> hd p = s \<and> last p = a"
proof (induction n arbitrary: a rule: less_induct)
  case (less n)
  note I = search_invD[OF inv]
  show ?case
  proof (cases "a = s")
    case True
    then have "walk G0 [a] \<and> hd [a] = s \<and> last [a] = a" by simp
    then show ?thesis by blast
  next
    case False
    from I(8)[OF less.prems(1) False] obtain q where q: "parent (heap G a) = Some q"
      "q \<in> set (closedSet A)" "edge G0 q a"
      "g (heap G a) = g (heap G q) + enat (weight (heap G a))" by blast
    have qs: "q \<in> seen A" using q(2) by (simp add: seen_def)
    from I(9)[OF qs] obtain m where m: "g (heap G q) = enat m" by auto
    have "a \<in> set (cells G0)" using q(3) by (simp add: edge_def)
    then have w0: "0 < weight (heap G0 a)" by (rule wf_weight[OF wf])
    have wa: "weight (heap G a) = weight (heap G0 a)" by (rule same_layout_fields(6)[OF I(1)])
    have "n = m + weight (heap G0 a)" using q(4) less.prems(2) m wa by simp
    then have mn: "m < n" using w0 by simp
    from less.IH[OF mn qs m] obtain p where
      p: "walk G0 p" "hd p = s" "last p = q" by blast
    have pne: "p \<noteq> []" using p(1) by (rule walk_nonempty)
    have "walk G0 (p @ [a])" using p(1) q(3) p(3) walk_snoc[of G0 p a] by simp
    moreover have "hd (p @ [a]) = s" "last (p @ [a]) = a" using p(2) pne by simp_all
    ultimately show ?thesis by blast
  qed
qed

lemma chain_to_start:
  assumes inv: "search_inv G0 s (A, G)" and wf: "wf_grid G0" and sc: "s \<in> set (cells G0)"
  shows "a \<in> seen A \<Longrightarrow> g (heap G a) = enat n \<Longrightarrow>
    \<exists>p. while_option (\<lambda>(p, cur). cur \<noteq> None)
            (\<lambda>(p, cur). case cur of None \<Rightarrow> (p, None) | Some a \<Rightarrow> (a # p, parent (heap G a)))
            (acc, Some a) = Some (p @ acc, None) \<and>
        walk G0 p \<and> hd p = s \<and> last p = a \<and> distinct p \<and>
        (\<forall>b \<in> set p. g (heap G b) \<le> g (heap G a)) \<and>
        ((\<forall>c \<in> set (cells G0). weight (heap G0 c) = 1) \<longrightarrow> length p = Suc n)"
proof (induction n arbitrary: a acc rule: less_induct)
  case (less n)
  note I = search_invD[OF inv]
  let ?C = "\<lambda>(p, cur). cur \<noteq> (None :: addr option)"
  let ?B = "\<lambda>(p, cur). case cur of None \<Rightarrow> (p, None) | Some a \<Rightarrow> (a # p, parent (heap G a))"
  have un: "while_option ?C ?B (acc, Some a) = while_option ?C ?B (a # acc, parent (heap G a))"
    by (subst while_option_unfold) simp
  show ?case
  proof (cases "a = s")
    case True
    have "while_option ?C ?B (a # acc, parent (heap G a)) = Some ([a] @ acc, None)"
      using True I(7)[OF sc] by (subst while_option_unfold) simp
    moreover have "n = 0" using less.prems(2) True I(6) by (simp add: zero_enat_def)
    ultimately show ?thesis unfolding un using True by (intro exI[where x = "[a]"]) simp
  next
    case False
    from I(8)[OF less.prems(1) False] obtain q where q: "parent (heap G a) = Some q"
      "q \<in> set (closedSet A)" "edge G0 q a"
      "g (heap G a) = g (heap G q) + enat (weight (heap G a))" by blast
    have qs: "q \<in> seen A" using q(2) by (simp add: seen_def)
    from I(9)[OF qs] obtain m where m: "g (heap G q) = enat m" by auto
    have "a \<in> set (cells G0)" using less.prems(1) I(4) False by blast
    then have w0: "0 < weight (heap G0 a)" by (rule wf_weight[OF wf])
    have wa: "weight (heap G a) = weight (heap G0 a)" by (rule same_layout_fields(6)[OF I(1)])
    have nm: "n = m + weight (heap G0 a)" using q(4) less.prems(2) m wa by simp
    then have mn: "m < n" using w0 by simp
    from less.IH[OF mn qs m, of "a # acc"] obtain p where
      p: "while_option ?C ?B (a # acc, Some q) = Some (p @ a # acc, None)"
      "walk G0 p" "hd p = s" "last p = q" "distinct p"
      "\<forall>b \<in> set p. g (heap G b) \<le> g (heap G q)"
      "(\<forall>c \<in> set (cells G0). weight (heap G0 c) = 1) \<longrightarrow> length p = Suc m"
      by blast
    have pne: "p \<noteq> []" using p(2) by (rule walk_nonempty)
    have 1: "while_option ?C ?B (acc, Some a) = Some ((p @ [a]) @ acc, None)"
      unfolding un q(1) using p(1) by simp
    have 2: "walk G0 (p @ [a])"
      using p(2) q(3) p(4) walk_snoc[of G0 p a] by simp
    have hl: "hd (p @ [a]) = s" "last (p @ [a]) = a" using p(3) pne by simp_all
    have qa: "g (heap G q) < g (heap G a)" using m less.prems(2) mn by simp
    have lt: "\<forall>b \<in> set p. g (heap G b) < g (heap G a)"
    proof
      fix b assume "b \<in> set p"
      then have "g (heap G b) \<le> g (heap G q)" using p(6) by blast
      then show "g (heap G b) < g (heap G a)" using qa by (rule le_less_trans)
    qed
    then have "a \<notin> set p" by blast
    then have 3: "distinct (p @ [a])" using p(5) by simp
    have 4: "\<forall>b \<in> set (p @ [a]). g (heap G b) \<le> g (heap G a)"
      using lt by (simp add: less_imp_le)
    have 5: "(\<forall>c \<in> set (cells G0). weight (heap G0 c) = 1) \<longrightarrow> length (p @ [a]) = Suc n"
      using p(7) nm \<open>a \<in> set (cells G0)\<close> by simp
    from 1 2 hl 3 4 5 show ?thesis by blast
  qed
qed

lemma reconstructPath_walk:
  assumes "search_inv G0 s (A, G)" "wf_grid G0" "s \<in> set (cells G0)" "a \<in> seen A"
  shows "\<exists>p. reconstructPath (heap G) a = Some p \<and> walk G0 p \<and> hd p = s \<and> last p = a \<and>
     distinct p \<and>
     ((\<forall>c \<in> set (cells G0). weight (heap G0 c) = 1) \<longrightarrow> enat (length p) = g (heap G a) + 1)"
proof -
  from search_invD(9)[OF assms(1,4)] obtain n where n: "g (heap G a) = enat n" by auto
  from chain_to_start[OF assms(1,2,3) assms(4) n, of "[]"] obtain p where
    p: "while_option (\<lambda>(p, cur). cur \<noteq> None)
            (\<lambda>(p, cur). case cur of None \<Rightarrow> (p, None) | Some a \<Rightarrow> (a # p, parent (heap G a)))
            ([], Some a) = Some (p @ [], None)"
    "walk G0 p" "hd p = s" "last p = a" "distinct p"
    "(\<forall>c \<in> set (cells G0). weight (heap G0 c) = 1) \<longrightarrow> length p = Suc n"
    by blast
  have "reconstructPath (heap G) a = Some p"
    unfolding reconstructPath_def p(1) by simp
  moreover have "(\<forall>c \<in> set (cells G0). weight (heap G0 c) = 1) \<longrightarrow> enat (length p) = g (heap G a) + 1"
    using p(6) n by (simp add: one_enat_def)
  ultimately show ?thesis using p(2-5) by blast
qed

lemma reconstructPath_known:
  assumes "search_inv G0 s (A, G)" "wf_grid G0" "s \<in> set (cells G0)"
    "\<not> isWall (heap G0 s)" "a \<in> seen A"
  shows "\<exists>p. reconstructPath (heap G) a = Some p \<and> is_path G0 s a p \<and> distinct p \<and>
     ((\<forall>c \<in> set (cells G0). weight (heap G0 c) = 1) \<longrightarrow> enat (length p) = g (heap G a) + 1)"
proof -
  from reconstructPath_walk[OF assms(1,2,3,5)] obtain p where
    p: "reconstructPath (heap G) a = Some p" "walk G0 p" "hd p = s" "last p = a" "distinct p"
    "(\<forall>c \<in> set (cells G0). weight (heap G0 c) = 1) \<longrightarrow> enat (length p) = g (heap G a) + 1"
    by blast
  have "is_path G0 s a p" using p(2-4) assms(3,4) by (simp add: is_path_def)
  then show ?thesis using p(1,5,6) by blast
qed

lemma findPath_loop_outcome:
  assumes "wf_grid G"
  shows "\<exists>st A3 G3. while_option findPath_cond (findPath_step e)
            (Searching, initAStar A s, initGrid G s e) = Some (st, A3, G3) \<and>
          loop_inv G s e (st, A3, G3) \<and> \<not> findPath_cond (st, A3, G3)"
proof -
  have i: "loop_inv G s e (Searching, initAStar A s, initGrid G s e)"
    by (rule init_loop_inv[OF assms])
  from loop_terminates[OF assms i] obtain \<tau> where
    t: "while_option findPath_cond (findPath_step e) (Searching, initAStar A s, initGrid G s e) = Some \<tau>"
    by blast
  obtain st A3 G3 where \<tau>: "\<tau> = (st, A3, G3)" by (cases \<tau>)
  from loop_result_inv[OF assms i t] show ?thesis using t unfolding \<tau> by blast
qed

lemma walk_edges: "walk G p \<Longrightarrow> Suc i < length p \<Longrightarrow> edge G (p ! i) (p ! Suc i)"
proof (induction G p arbitrary: i rule: walk.induct)
  case (1 G)
  then show ?case by simp
next
  case (2 G a)
  then show ?case by simp
next
  case (3 G a b p)
  show ?case
  proof (cases i)
    case 0
    then show ?thesis using "3.prems" by simp
  next
    case (Suc j)
    then show ?thesis using "3.prems" "3.IH"[of j] by simp
  qed
qed

lemma walk_tail_cells: "walk G (a # p) \<Longrightarrow> b \<in> set p \<Longrightarrow> b \<in> set (cells G) \<and> \<not> isWall (heap G b)"
proof (induction p arbitrary: a)
  case Nil
  then show ?case by simp
next
  case (Cons c p)
  then show ?case by (auto simp: edge_def)
qed

lemma is_path_cells:
  assumes "is_path G s e p" "b \<in> set p"
  shows "b \<in> set (cells G) \<and> \<not> isWall (heap G b)"
proof (cases p)
  case Nil
  then show ?thesis using assms by simp
next
  case (Cons a q)
  then have "a = s" using assms(1) by (simp add: is_path_def)
  then show ?thesis using assms Cons walk_tail_cells[of G a q b] by (auto simp: is_path_def)
qed

lemma resultPath_Some:
  assumes "resultPath x = Some p"
  shows "\<exists>res A' G'. x = Some (ReturnsResult res, A', G') \<and> r_path res = p"
  using assms unfolding resultPath_def
  by (auto split: option.splits prod.splits answer.splits)

subsection \<open>The blocked 2 x 2 grid has no path\<close>

lemma gridBlocked_no_edge: "\<not> edge gridBlocked 0 b"
proof
  assume e: "edge gridBlocked 0 b"
  then have "b \<in> set (cells gridBlocked)" by (simp add: edge_def)
  moreover have "\<forall>c \<in> set (cells gridBlocked). \<not> edge gridBlocked 0 c" by code_simp
  ultimately show False using e by blast
qed

lemma gridBlocked_no_walk: "\<not> (walk gridBlocked p \<and> hd p = 0 \<and> last p = 3)"
proof
  assume "walk gridBlocked p \<and> hd p = 0 \<and> last p = 3"
  then have w: "walk gridBlocked p" and h: "hd p = 0" and l: "last p = 3" by simp_all
  show False
  proof (cases p)
    case Nil
    then show ?thesis using w by simp
  next
    case (Cons a q)
    then have a: "a = 0" using h by simp
    show ?thesis
    proof (cases q)
      case Nil
      then show ?thesis using Cons l a by simp
    next
      case (Cons b q')
      then show ?thesis using w \<open>p = a # q\<close> a gridBlocked_no_edge[of b] by simp
    qed
  qed
qed

subsection \<open>Optimality on unit weights\<close>

lemma opt_invD:
  assumes "opt_inv G0 s e cur todo (A, G)"
  shows "\<And>a. a \<in> set (cells G0) \<Longrightarrow> a \<notin> seen A \<Longrightarrow> g (heap G a) = \<infinity>"
    "\<And>a. a \<in> seen A \<Longrightarrow> f (heap G a) = g (heap G a) + enat (h (heap G a))"
    "\<And>a. a \<in> seen A \<Longrightarrow> h (heap G a) = calculateHeuristic (heap G0 a) (heap G0 e)"
    "\<And>a b. a \<in> set (closedSet A) \<Longrightarrow> edge G0 a b \<Longrightarrow>
        (a = cur \<and> b \<in> todo) \<or> b \<in> set (closedSet A) \<or>
        (b \<in> set (openSet A) \<and> g (heap G b) \<le> g (heap G a) + 1)"
    "\<And>a p. a \<in> set (closedSet A) \<Longrightarrow> is_path G0 s a p \<Longrightarrow> g (heap G a) + 1 \<le> enat (length p)"
  using assms unfolding opt_inv_def by simp_all

lemma opt_invI:
  assumes "\<And>a. a \<in> set (cells G0) \<Longrightarrow> a \<notin> seen A \<Longrightarrow> g (heap G a) = \<infinity>"
    "\<And>a. a \<in> seen A \<Longrightarrow> f (heap G a) = g (heap G a) + enat (h (heap G a))"
    "\<And>a. a \<in> seen A \<Longrightarrow> h (heap G a) = calculateHeuristic (heap G0 a) (heap G0 e)"
    "\<And>a b. a \<in> set (closedSet A) \<Longrightarrow> edge G0 a b \<Longrightarrow>
        (a = cur \<and> b \<in> todo) \<or> b \<in> set (closedSet A) \<or>
        (b \<in> set (openSet A) \<and> g (heap G b) \<le> g (heap G a) + 1)"
    "\<And>a p. a \<in> set (closedSet A) \<Longrightarrow> is_path G0 s a p \<Longrightarrow> g (heap G a) + 1 \<le> enat (length p)"
  shows "opt_inv G0 s e cur todo (A, G)"
  using assms unfolding opt_inv_def by simp

lemma relax_opt_inv:
  assumes inv: "search_inv G0 s (A, G)" and opt: "opt_inv G0 s e cur todo (A, G)"
    and cur: "cur \<in> set (closedSet A)" and ed: "edge G0 cur nb" and uw: "unit_weights G0"
  shows "opt_inv G0 s e cur (todo - {nb}) (relax cur e nb (A, G))"
proof -
  note I = search_invD[OF inv]
  note O = opt_invD[OF opt]
  have nb_cell: "nb \<in> set (cells G0)" and nb_free: "\<not> isWall (heap G0 nb)"
    using ed by (simp_all add: edge_def)
  have w1: "weight (heap G nb) = 1"
    using uw nb_cell same_layout_fields(6)[OF I(1), of nb] by (simp add: unit_weights_def)
  have nw: "\<not> isWall (heap G nb)" using nb_free same_layout_fields(5)[OF I(1), of nb] by simp
  have cur_seen: "cur \<in> seen A" using cur by (simp add: seen_def)
  have cur_fin: "g (heap G cur) \<noteq> \<infinity>" using I(9)[OF cur_seen] .
  show ?thesis
  proof (cases rule: relax_cases[of cur e nb A G])
    case skip
    have k: "nb \<in> set (closedSet A) \<or> (nb \<in> set (openSet A) \<and> g (heap G nb) \<le> g (heap G cur) + 1)"
    proof (cases "nb \<in> set (closedSet A)")
      case True
      then show ?thesis by simp
    next
      case False
      then have le: "g (heap G nb) \<le> g (heap G cur) + 1"
        using skip(2) nw w1 by (simp add: one_enat_def not_less)
      moreover have "g (heap G cur) + 1 \<noteq> \<infinity>" using cur_fin by (auto simp: one_enat_def)
      ultimately have fin: "g (heap G nb) \<noteq> \<infinity>" by (metis enat_ord_simps(5))
      have "nb \<in> seen A"
      proof (rule ccontr)
        assume "nb \<notin> seen A"
        from O(1)[OF nb_cell this] fin show False by simp
      qed
      then show ?thesis using False le by (simp add: seen_def)
    qed
    show ?thesis unfolding skip(1)
    proof (rule opt_invI)
      fix a b assume a: "a \<in> set (closedSet A)" and e: "edge G0 a b"
      from O(4)[OF a e] k
      show "(a = cur \<and> b \<in> todo - {nb}) \<or> b \<in> set (closedSet A) \<or>
        (b \<in> set (openSet A) \<and> g (heap G b) \<le> g (heap G a) + 1)"
        by (cases "b = nb") auto
    qed (use O in \<open>simp_all\<close>)
  next
    case (upd A')
    define t where "t = g (heap G cur) + enat (weight (heap G nb))"
    define hv where "hv = calculateHeuristic (heap G nb) (heap G e)"
    define G' where "G' = updNode G nb (\<lambda>n. n\<lparr> parent := Some cur, g := t, h := hv, f := t + enat hv \<rparr>)"
    have res: "relax cur e nb (A, G) = (A', G')" using upd(4) by (simp add: G'_def t_def hv_def)
    have hp_nb: "g (heap G' nb) = t" "h (heap G' nb) = hv" "f (heap G' nb) = t + enat hv"
      by (simp_all add: G'_def)
    have hp_other: "\<And>a. a \<noteq> nb \<Longrightarrow> heap G' a = heap G a" by (simp add: G'_def)
    have t1: "t = g (heap G cur) + 1" using w1 by (simp add: t_def one_enat_def)
    have lt: "t < g (heap G nb)" using upd(3) by (simp add: t_def)
    have seen': "seen A' = insert nb (seen A)" using upd(5,6) by (simp add: seen_def)
    have nb_cur: "cur \<noteq> nb" using cur upd(1) by blast
    have hv0: "hv = calculateHeuristic (heap G0 nb) (heap G0 e)"
      unfolding hv_def by (rule same_layout_heur[OF I(1)])
    show ?thesis unfolding res
    proof (rule opt_invI)
      fix a assume "a \<in> set (cells G0)" "a \<notin> seen A'"
      then show "g (heap G' a) = \<infinity>" using seen' O(1) hp_other by simp
    next
      fix a assume a: "a \<in> seen A'"
      show "f (heap G' a) = g (heap G' a) + enat (h (heap G' a))"
        using a seen' O(2) hp_other hp_nb by (cases "a = nb") simp_all
      show "h (heap G' a) = calculateHeuristic (heap G0 a) (heap G0 e)"
        using a seen' O(3) hp_other hp_nb hv0 by (cases "a = nb") simp_all
    next
      fix a b assume a: "a \<in> set (closedSet A')" and e: "edge G0 a b"
      have a': "a \<in> set (closedSet A)" using a upd(5) by simp
      have a_nb: "a \<noteq> nb" using a' upd(1) by blast
      have ga: "g (heap G' a) = g (heap G a)" using hp_other[OF a_nb] by simp
      show "(a = cur \<and> b \<in> todo - {nb}) \<or> b \<in> set (closedSet A') \<or>
        (b \<in> set (openSet A') \<and> g (heap G' b) \<le> g (heap G' a) + 1)"
      proof (cases "b = nb")
        case True
        have "g (heap G' nb) \<le> g (heap G a) + 1"
        proof (cases "a = cur")
          case True
          then show ?thesis using hp_nb t1 by simp
        next
          case False
          from O(4)[OF a' e] False upd(1) True
          have "g (heap G nb) \<le> g (heap G a) + 1" by simp
          then show ?thesis using lt hp_nb by simp
        qed
        then show ?thesis using True upd(6) ga by simp
      next
        case False
        from O(4)[OF a' e] show ?thesis
          using False upd(5,6) ga hp_other[OF False] by auto
      qed
    next
      fix a p assume a: "a \<in> set (closedSet A')" and p: "is_path G0 s a p"
      have a': "a \<in> set (closedSet A)" using a upd(5) by simp
      have a_nb: "a \<noteq> nb" using a' upd(1) by blast
      show "g (heap G' a) + 1 \<le> enat (length p)"
        using O(5)[OF a' p] hp_other[OF a_nb] by simp
    qed
  qed
qed

lemma fold_relax_opt_inv:
  assumes "search_inv G0 s (A, G)" "opt_inv G0 s e cur todo (A, G)"
    "cur \<in> set (closedSet A)" "\<forall>nb \<in> set ns. edge G0 cur nb" "unit_weights G0"
  shows "opt_inv G0 s e cur (todo - set ns) (fold (relax cur e) ns (A, G))"
  using assms(1-4)
proof (induction ns arbitrary: A G todo)
  case Nil
  then show ?case by simp
next
  case (Cons nb ns)
  obtain A1 G1 where r: "relax cur e nb (A, G) = (A1, G1)" by (cases "relax cur e nb (A, G)")
  have ed: "edge G0 cur nb" using Cons.prems(4) by simp
  have 1: "search_inv G0 s (A1, G1)"
    using relax_search_inv[OF Cons.prems(1,3) ed, of e] r by simp
  have 2: "opt_inv G0 s e cur (todo - {nb}) (A1, G1)"
    using relax_opt_inv[OF Cons.prems(1,2,3) ed assms(5)] r by simp
  have 3: "cur \<in> set (closedSet A1)"
    using relax_closed[of cur e nb A G] r Cons.prems(3) by simp
  have 4: "\<forall>nb \<in> set ns. edge G0 cur nb" using Cons.prems(4) by simp
  have "todo - {nb} - set ns = todo - set (nb # ns)" by auto
  then show ?case using Cons.IH[OF 1 2 3 4] r by simp
qed

lemma heur_edge:
  assumes "edge G a b"
  shows "calculateHeuristic (heap G a) n \<le> Suc (calculateHeuristic (heap G b) n)"
proof -
  have "\<bar>row (heap G a) - row (heap G b)\<bar> + \<bar>col (heap G a) - col (heap G b)\<bar> = 1"
    using assms by (simp add: edge_def)
  then show ?thesis unfolding calculateHeuristic_def by (rule manh_step)
qed

lemma heur_walk:
  "walk G (a # q) \<Longrightarrow>
     calculateHeuristic (heap G a) n \<le> length q + calculateHeuristic (heap G (last (a # q))) n"
proof (induction q arbitrary: a)
  case Nil
  then show ?case by simp
next
  case (Cons b q)
  then have e: "edge G a b" and w: "walk G (b # q)" by simp_all
  from heur_edge[OF e, of n] Cons.IH[OF w] show ?case by simp
qed

lemma walk_append_split:
  "walk G (p1 @ w # p2) \<Longrightarrow> walk G (w # p2) \<and> (p1 \<noteq> [] \<longrightarrow> walk G p1 \<and> edge G (last p1) w)"
proof (induction p1)
  case Nil
  then show ?case by simp
next
  case (Cons a p1)
  show ?case
  proof (cases p1)
    case Nil
    then show ?thesis using Cons.prems by simp
  next
    case (Cons b p1')
    then show ?thesis using Cons.prems Cons.IH by simp
  qed
qed

lemma first_outside:
  assumes "p \<noteq> []" "last p \<notin> C"
  obtains p1 w p2 where "p = p1 @ w # p2" "set p1 \<subseteq> C" "w \<notin> C"
proof -
  let ?P = "\<lambda>x. x \<in> C"
  have "\<not> (\<forall>x \<in> set p. ?P x)" using assms last_in_set by blast
  then have ne: "dropWhile ?P p \<noteq> []" by (simp add: dropWhile_eq_Nil_conv)
  then obtain w p2 where d: "dropWhile ?P p = w # p2" by (cases "dropWhile ?P p") auto
  have 1: "p = takeWhile ?P p @ w # p2" using d takeWhile_dropWhile_id[of ?P p] by simp
  have 2: "set (takeWhile ?P p) \<subseteq> C" using set_takeWhileD by fastforce
  have 3: "w \<notin> C" using hd_dropWhile[OF ne] d by simp
  from 1 2 3 show ?thesis by (rule that)
qed

lemma not_better_f: "\<not> better m n \<Longrightarrow> f n \<le> f m"
  by (auto simp: better_def)

text \<open>The node with the lowest \<open>f\<close> in the open set has its final cost.\<close>

lemma popmin_optimal:
  assumes inv: "search_inv G0 s (A, G)" and opt: "opt_inv G0 s e c {} (A, G)"
    and u: "u \<in> set (openSet A)"
    and least: "\<forall>b \<in> set (openSet A). \<not> better (heap G b) (heap G u)"
    and p: "is_path G0 s u p"
  shows "g (heap G u) + 1 \<le> enat (length p)"
proof -
  note I = search_invD[OF inv]
  note O = opt_invD[OF opt]
  have wp: "walk G0 p" and hd: "hd p = s" and la: "last p = u"
    and sc: "s \<in> set (cells G0)" and sw: "\<not> isWall (heap G0 s)"
    using p by (simp_all add: is_path_def)
  have pne: "p \<noteq> []" using walk_nonempty[OF wp] .
  have "u \<notin> set (closedSet A)" using u I(3) by blast
  then have "last p \<notin> set (closedSet A)" using la by simp
  from first_outside[OF pne this] obtain p1 w p2 where
    sp: "p = p1 @ w # p2" and cl: "set p1 \<subseteq> set (closedSet A)" and wn: "w \<notin> set (closedSet A)"
    by blast
  from walk_append_split[of G0 p1 w p2] wp sp
  have w2: "walk G0 (w # p2)" and w1: "p1 \<noteq> [] \<longrightarrow> walk G0 p1 \<and> edge G0 (last p1) w"
    by simp_all
  have lw: "last (w # p2) = u" using la sp by simp
  have hw: "calculateHeuristic (heap G0 w) (heap G0 e)
      \<le> length p2 + calculateHeuristic (heap G0 u) (heap G0 e)"
    using heur_walk[OF w2, of "heap G0 e"] lw by simp
  have wo: "w \<in> set (openSet A) \<and> g (heap G w) + 1 \<le> enat (Suc (length p1))"
  proof (cases "p1 = []")
    case True
    then have "w = s" using sp hd by simp
    moreover have "s \<in> set (openSet A)" using I(5) wn \<open>w = s\<close> by (simp add: seen_def)
    ultimately show ?thesis using I(6) by (simp add: one_enat_def)
  next
    case False
    then have q1: "walk G0 p1" and qe: "edge G0 (last p1) w" using w1 by simp_all
    have qc: "last p1 \<in> set (closedSet A)" using cl False last_in_set by blast
    have "hd p1 = s" using hd sp False by simp
    then have "is_path G0 s (last p1) p1" using q1 sc sw by (simp add: is_path_def)
    from O(5)[OF qc this] have gq: "g (heap G (last p1)) + 1 \<le> enat (length p1)" .
    from O(4)[OF qc qe] wn have wopen: "w \<in> set (openSet A)"
      and gw: "g (heap G w) \<le> g (heap G (last p1)) + 1" by simp_all
    have "g (heap G w) + 1 \<le> g (heap G (last p1)) + 1 + 1" using gw by (simp add: add_right_mono)
    also have "\<dots> \<le> enat (length p1) + 1" using gq by (simp add: add_right_mono)
    finally show ?thesis using wopen by (simp add: one_enat_def)
  qed
  then have wopen: "w \<in> set (openSet A)" and gw: "g (heap G w) + 1 \<le> enat (Suc (length p1))"
    by simp_all
  have us: "u \<in> seen A" and ws: "w \<in> seen A" using u wopen by (simp_all add: seen_def)
  obtain gu where gu: "g (heap G u) = enat gu" using I(9)[OF us] by auto
  obtain gv where gv: "g (heap G w) = enat gv" using I(9)[OF ws] by auto
  have fu: "f (heap G u) = enat (gu + calculateHeuristic (heap G0 u) (heap G0 e))"
    using O(2)[OF us] O(3)[OF us] gu by simp
  have fw: "f (heap G w) = enat (gv + calculateHeuristic (heap G0 w) (heap G0 e))"
    using O(2)[OF ws] O(3)[OF ws] gv by simp
  have "f (heap G u) \<le> f (heap G w)" using least wopen not_better_f by blast
  then have 1: "gu + calculateHeuristic (heap G0 u) (heap G0 e)
      \<le> gv + calculateHeuristic (heap G0 w) (heap G0 e)"
    unfolding fu fw by simp
  have 2: "gv \<le> length p1" using gw gv by (simp add: one_enat_def)
  have "length p = length p1 + Suc (length p2)" using sp by simp
  then have "Suc gu \<le> length p" using 1 2 hw by linarith
  then show ?thesis using gu by (simp add: one_enat_def)
qed

lemma pop_opt_inv:
  assumes inv: "search_inv G0 s (A, G)" and opt: "opt_inv G0 s e c {} (A, G)"
    and cur: "cur \<in> set (openSet A)"
    and least: "\<forall>b \<in> set (openSet A). \<not> better (heap G b) (heap G cur)"
    and o2: "openSet A2 = remove1 cur (openSet A)" and c2: "closedSet A2 = closedSet A @ [cur]"
    and u: "u = (\<lambda>n. n) \<or> u = (\<lambda>n. n\<lparr> isVisited := True \<rparr>)"
  shows "opt_inv G0 s e cur UNIV (A2, updNode G cur u)"
proof -
  note I = search_invD[OF inv]
  note O = opt_invD[OF opt]
  have uf: "\<And>n. g (u n) = g n \<and> f (u n) = f n \<and> h (u n) = h n"
    using u by auto
  have hp: "\<And>a. g (heap (updNode G cur u) a) = g (heap G a) \<and>
      f (heap (updNode G cur u) a) = f (heap G a) \<and>
      h (heap (updNode G cur u) a) = h (heap G a)"
    using uf by simp
  have seen2: "seen A2 = seen A"
    using cur I(2) unfolding seen_def o2 c2 by auto
  have open2: "set (openSet A2) = set (openSet A) - {cur}"
    using I(2) unfolding o2 by simp
  show ?thesis
  proof (rule opt_invI)
    fix a assume "a \<in> set (cells G0)" "a \<notin> seen A2"
    then show "g (heap (updNode G cur u) a) = \<infinity>" using O(1) seen2 hp by simp
  next
    fix a assume a: "a \<in> seen A2"
    show "f (heap (updNode G cur u) a) = g (heap (updNode G cur u) a) + enat (h (heap (updNode G cur u) a))"
      using a seen2 O(2) hp by simp
    show "h (heap (updNode G cur u) a) = calculateHeuristic (heap G0 a) (heap G0 e)"
      using a seen2 O(3) hp by simp
  next
    fix a b assume a: "a \<in> set (closedSet A2)" and e: "edge G0 a b"
    show "(a = cur \<and> b \<in> UNIV) \<or> b \<in> set (closedSet A2) \<or>
        (b \<in> set (openSet A2) \<and> g (heap (updNode G cur u) b) \<le> g (heap (updNode G cur u) a) + 1)"
    proof (cases "a = cur")
      case True
      then show ?thesis by simp
    next
      case False
      then have a': "a \<in> set (closedSet A)" using a c2 by simp
      from O(4)[OF a' e] show ?thesis
        unfolding c2 open2 using hp by (cases "b = cur") auto
    qed
  next
    fix a p assume a: "a \<in> set (closedSet A2)" and p: "is_path G0 s a p"
    show "g (heap (updNode G cur u) a) + 1 \<le> enat (length p)"
    proof (cases "a = cur")
      case True
      from popmin_optimal[OF inv opt cur least] p True show ?thesis using uf by simp
    next
      case False
      then have a': "a \<in> set (closedSet A)" using a c2 by simp
      from O(5)[OF a' p] show ?thesis using hp by simp
    qed
  qed
qed

lemma opt_inv_done:
  assumes "opt_inv G0 s e cur (UNIV - {b. edge G0 cur b}) (A, G)"
  shows "opt_inv G0 s e c {} (A, G)"
proof -
  note O = opt_invD[OF assms]
  show ?thesis
  proof (rule opt_invI)
    fix a b assume a: "a \<in> set (closedSet A)" and e: "edge G0 a b"
    from O(4)[OF a e] e
    show "(a = c \<and> b \<in> {}) \<or> b \<in> set (closedSet A) \<or>
        (b \<in> set (openSet A) \<and> g (heap G b) \<le> g (heap G a) + 1)"
      by auto
  qed (use O in \<open>simp_all\<close>)
qed

lemma step_opt_loop_inv:
  assumes wf: "wf_grid G0" and uw: "unit_weights G0"
    and inv: "opt_loop_inv G0 s e \<sigma>" and cond: "findPath_cond \<sigma>"
  shows "opt_loop_inv G0 s e (findPath_step e \<sigma>)"
proof -
  obtain st A G where \<sigma>: "\<sigma> = (st, A, G)" by (cases \<sigma>)
  have li: "loop_inv G0 s e \<sigma>" and opt: "opt_inv G0 s e s {} (A, G)"
    using inv by (simp_all add: \<sigma> opt_loop_inv_def)
  have li': "loop_inv G0 s e (findPath_step e \<sigma>)"
    using step_loop_inv[OF wf li cond] by simp
  have st: "st = Searching" and ne: "openSet A \<noteq> []"
    using cond by (simp_all add: \<sigma> findPath_cond_def)
  have sinv: "search_inv G0 s (A, G)" using li by (simp add: \<sigma> loop_inv_def)
  from getLowestFNode_mem[OF ne, of "heap G"] obtain cur where
    cur: "getLowestFNode (heap G) (openSet A) = Some cur" "cur \<in> set (openSet A)"
    and least: "\<forall>b \<in> set (openSet A). \<not> better (heap G b) (heap G cur)" by blast
  show ?thesis
  proof (cases "cur = e")
    case True
    have res: "findPath_step e \<sigma> = (Reached, A, G)"
      unfolding \<sigma> by (rule findPath_step_goal[OF cur(1) True])
    have "\<forall>p. is_path G0 s e p \<longrightarrow> g (heap G e) + 1 \<le> enat (length p)"
      using popmin_optimal[OF sinv opt cur(2) least] True by blast
    then show ?thesis using li' opt unfolding res by (simp add: opt_loop_inv_def)
  next
    case False
    from findPath_step_expand[OF cur(1) False, of st] obtain A2 u where
      u: "u = (\<lambda>n. n) \<or> u = (\<lambda>n. n\<lparr> isVisited := True \<rparr>)"
      and o2: "openSet A2 = remove1 cur (openSet A)"
      and c2: "closedSet A2 = closedSet A @ [cur]"
      and step: "findPath_step e (st, A, G) =
        (case getNeighbors (heap (updNode G cur u)) (nodes (updNode G cur u)) (heap (updNode G cur u) cur) of
           None \<Rightarrow> (Crashed, A2, updNode G cur u)
         | Some ns \<Rightarrow> (case fold (relax cur e) ns (A2, updNode G cur u) of
                        (A3, G3) \<Rightarrow> (Searching, A3, G3)))"
      by blast
    define G2 where "G2 = updNode G cur u"
    have inv2: "search_inv G0 s (A2, G2)"
      unfolding G2_def by (rule pop_search_inv[OF sinv cur(2) o2 c2 u])
    have opt2: "opt_inv G0 s e cur UNIV (A2, G2)"
      unfolding G2_def by (rule pop_opt_inv[OF sinv opt cur(2) least o2 c2 u])
    have lay2: "same_layout G0 G2" using search_invD(1)[OF inv2] .
    have wf2: "wf_grid G2" by (rule same_layout_wf[OF lay2 wf])
    from getNeighbors_edges[OF wf2, of cur] obtain ns where
      ns: "getNeighbors (heap G2) (nodes G2) (heap G2 cur) = Some ns"
      "set ns = {b. edge G2 cur b}" by blast
    have ns0: "set ns = {b. edge G0 cur b}" using ns(2) same_layout_edge[OF lay2] by simp
    then have edges: "\<forall>nb \<in> set ns. edge G0 cur nb" by simp
    have cur2: "cur \<in> set (closedSet A2)" using c2 by simp
    obtain A3 G3 where f3: "fold (relax cur e) ns (A2, G2) = (A3, G3)"
      by (cases "fold (relax cur e) ns (A2, G2)")
    from fold_relax_opt_inv[OF inv2 opt2 cur2 edges uw] f3
    have "opt_inv G0 s e cur (UNIV - {b. edge G0 cur b}) (A3, G3)" unfolding ns0 by simp
    then have opt3: "opt_inv G0 s e s {} (A3, G3)" by (rule opt_inv_done)
    have res: "findPath_step e \<sigma> = (Searching, A3, G3)"
      unfolding \<sigma> step using ns(1) f3 unfolding G2_def by simp
    show ?thesis using li' opt3 unfolding res by (simp add: opt_loop_inv_def)
  qed
qed

lemma init_opt_loop_inv:
  assumes "wf_grid G" "s \<in> set (cells G)"
  shows "opt_loop_inv G s e (Searching, initAStar A s, initGrid G s e)"
proof -
  have A: "openSet (initAStar A s) = [s]" "closedSet (initAStar A s) = []"
    by (simp_all add: initAStar_def AStar_reset_def)
  have "opt_inv G s e s {} (initAStar A s, initGrid G s e)"
  proof (rule opt_invI)
    fix a assume "a \<in> set (cells G)" "a \<notin> seen (initAStar A s)"
    then show "g (heap (initGrid G s e) a) = \<infinity>"
      using initGrid_props(4)[OF assms(1)] by (simp add: seen_def A)
  next
    fix a assume "a \<in> seen (initAStar A s)"
    then have a: "a = s" by (simp add: seen_def A)
    show "f (heap (initGrid G s e) a) = g (heap (initGrid G s e) a) + enat (h (heap (initGrid G s e) a))"
      unfolding a using initGrid_props(2,5,6)[OF assms(1), of s e] by simp
    show "h (heap (initGrid G s e) a) = calculateHeuristic (heap G a) (heap G e)"
      unfolding a using initGrid_props(6)[OF assms(1)] by simp
  qed (simp_all add: A)
  then show ?thesis using init_loop_inv[OF assms(1), of s e A] by (simp add: opt_loop_inv_def)
qed

lemma loop_result_opt:
  assumes "wf_grid G0" "unit_weights G0" "opt_loop_inv G0 s e \<sigma>"
    "while_option findPath_cond (findPath_step e) \<sigma> = Some \<tau>"
  shows "opt_loop_inv G0 s e \<tau>"
  by (rule while_option_rule[where P = "opt_loop_inv G0 s e", OF _ assms(4) assms(3)])
     (use step_opt_loop_inv[OF assms(1,2)] in blast)

lemma walk_stays_closed:
  "walk G p \<Longrightarrow> hd p \<in> C \<Longrightarrow> (\<forall>a \<in> C. \<forall>b. edge G a b \<longrightarrow> b \<in> C) \<Longrightarrow> set p \<subseteq> C"
proof (induction G p rule: walk.induct)
  case (1 G)
  then show ?case by simp
next
  case (2 G a)
  then show ?case by simp
next
  case (3 G a b p)
  then have "b \<in> C" by auto
  then show ?case using 3 by auto
qed

subsection \<open>Claim C1: the returned path is a shortest path\<close>

text \<open>
  Claim C1. On a well-formed grid in which every cell has weight 1 and an obstacle-free
  orthogonal path leads from the start to the goal, \<open>findPath\<close> (called on a search
  object that is not running) ends and returns a result object; its path is such a path
  from the start to the goal, without repetition, and no obstacle-free path from the
  start to the goal has fewer cells: its length is the length of a shortest path, the
  number that a breadth-first search finds.
\<close>

theorem findPath_shortest:
  assumes "wf_grid G" "startNode G = Ref s" "endNode G = Ref e" "\<not> isRunning A"
    and "unit_weights G" and "is_path G s e q0"
  shows "\<exists>res A' G'. findPath A G = Some (ReturnsResult res, A', G') \<and>
     is_path G s e (r_path res) \<and> distinct (r_path res) \<and>
     r_pathLength res = length (r_path res) \<and>
     (\<forall>q. is_path G s e q \<longrightarrow> length (r_path res) \<le> length q)"
proof -
  have sc: "s \<in> set (cells G)" and sw: "\<not> isWall (heap G s)"
    and w0: "walk G q0" and h0: "hd q0 = s" and l0: "last q0 = e"
    using assms(6) by (simp_all add: is_path_def)
  have i: "opt_loop_inv G s e (Searching, initAStar A s, initGrid G s e)"
    by (rule init_opt_loop_inv[OF assms(1) sc])
  from findPath_loop_outcome[OF assms(1), of e A s] obtain st A3 G3 where
    w: "while_option findPath_cond (findPath_step e)
            (Searching, initAStar A s, initGrid G s e) = Some (st, A3, G3)"
    and nc: "\<not> findPath_cond (st, A3, G3)" by blast
  have oli: "opt_loop_inv G s e (st, A3, G3)"
    by (rule loop_result_opt[OF assms(1,5) i w])
  then have li: "loop_inv G s e (st, A3, G3)" and opt: "opt_inv G s e s {} (A3, G3)"
    and best: "st = Reached \<longrightarrow> (\<forall>p. is_path G s e p \<longrightarrow> g (heap G3 e) + 1 \<le> enat (length p))"
    by (simp_all add: opt_loop_inv_def)
  have si: "search_inv G s (A3, G3)" and run: "isRunning A3"
    and nc': "st \<noteq> Crashed" and re: "st = Reached \<longrightarrow> e \<in> set (openSet A3)"
    and ec: "e \<notin> set (closedSet A3)"
    using li by (simp_all add: loop_inv_def)
  have fp: "findPath A G = (case st of
           Reached \<Rightarrow>
             (case reconstructPath (heap G3) e of
                None \<Rightarrow> None
              | Some p \<Rightarrow>
                  Some (ReturnsResult
                          \<lparr> r_path = p, r_visitedNodes = visitedNodes A3,
                            r_pathLength = length p,
                            r_nodesExplored = nodesExplored A3 \<rparr>,
                        A3\<lparr> path := p, isRunning := False \<rparr>, G3))
         | Searching \<Rightarrow> Some (ReturnsNull, A3\<lparr> isRunning := False \<rparr>, G3)
         | Crashed \<Rightarrow> Some (ThrowsError TypeError, A3, G3))"
    unfolding findPath_unfold[OF assms(4,2,3,1)] w by simp
  have "st \<noteq> Searching"
  proof
    assume st: "st = Searching"
    then have oe: "openSet A3 = []" using nc run by (simp add: findPath_cond_def)
    have cl: "\<forall>a \<in> set (closedSet A3). \<forall>b. edge G a b \<longrightarrow> b \<in> set (closedSet A3)"
      using opt_invD(4)[OF opt] oe by auto
    have "s \<in> set (closedSet A3)" using search_invD(5)[OF si] oe by (simp add: seen_def)
    then have "hd q0 \<in> set (closedSet A3)" using h0 by simp
    from walk_stays_closed[OF w0 this cl] have "last q0 \<in> set (closedSet A3)"
      using walk_nonempty[OF w0] last_in_set by blast
    then show False using l0 ec by simp
  qed
  then have st: "st = Reached" using nc' by (cases st) simp_all
  have es: "e \<in> seen A3" using re st by (simp add: seen_def)
  from reconstructPath_known[OF si assms(1) sc sw es] assms(5) obtain p where
    p: "reconstructPath (heap G3) e = Some p" "is_path G s e p" "distinct p"
    "enat (length p) = g (heap G3 e) + 1" by (auto simp: unit_weights_def)
  have short: "\<forall>q. is_path G s e q \<longrightarrow> length p \<le> length q"
  proof (intro allI impI)
    fix q assume "is_path G s e q"
    then have "g (heap G3 e) + 1 \<le> enat (length q)" using best st by blast
    then show "length p \<le> length q" using p(4) by (metis enat_ord_simps(1))
  qed
  have "findPath A G = Some (ReturnsResult
                          \<lparr> r_path = p, r_visitedNodes = visitedNodes A3,
                            r_pathLength = length p,
                            r_nodesExplored = nodesExplored A3 \<rparr>,
                        A3\<lparr> path := p, isRunning := False \<rparr>, G3)"
    unfolding fp st p(1) by simp
  then show ?thesis using p(2,3) short by simp
qed

theorem findPath_shortest_witness:
  "wf_grid grid22 \<and> startNode grid22 = Ref 0 \<and> endNode grid22 = Ref 3 \<and>
   \<not> isRunning new_AStar \<and> unit_weights grid22 \<and> is_path grid22 0 3 [0, 2, 3] \<and>
   (\<exists>res A' G'. findPath new_AStar grid22 = Some (ReturnsResult res, A', G') \<and>
      is_path grid22 0 3 (r_path res) \<and> length (r_path res) \<le> length [0, 2, 3 :: addr])"
proof -
  have h: "wf_grid grid22" "startNode grid22 = Ref 0" "endNode grid22 = Ref 3"
    "\<not> isRunning new_AStar" "unit_weights grid22" "is_path grid22 0 3 [0, 2, 3]"
    by code_simp+
  from findPath_shortest[OF h] h show ?thesis by blast
qed

subsection \<open>The role invariant under the grid operations\<close>

lemma wf_gridI:
  assumes "rows w = Some (int (length (nodes w)))"
    and "\<And>r. r < length (nodes w) \<Longrightarrow> cols w = Some (int (length (nodes w ! r)))"
    and "distinct (cells w)"
    and "\<And>r c. r < length (nodes w) \<Longrightarrow> c < length (nodes w ! r) \<Longrightarrow>
           nodes w ! r ! c < nextAddr w \<and> 0 < weight (heap w (nodes w ! r ! c)) \<and>
           row (heap w (nodes w ! r ! c)) = int r \<and> col (heap w (nodes w ! r ! c)) = int c"
  shows "wf_grid w"
  unfolding wf_grid_def
proof (intro conjI ballI)
  show "rows w = Some (int (length (nodes w)))" by (rule assms(1))
  show "distinct (cells w)" by (rule assms(3))
next
  fix rw assume "rw \<in> set (nodes w)"
  then obtain r where "r < length (nodes w)" "rw = nodes w ! r" by (metis in_set_conv_nth)
  then show "cols w = Some (int (length rw))" using assms(2) by simp
next
  fix a assume "a \<in> set (cells w)"
  then obtain r c where "r < length (nodes w)" "c < length (nodes w ! r)" "a = nodes w ! r ! c"
    unfolding in_cells_iff by blast
  then show "a < nextAddr w" "0 < weight (heap w a)" using assms(4) by simp_all
next
  fix x assume x: "x \<in> set (List.enumerate 0 (nodes w))"
  obtain r rw where xr: "x = (r, rw)" by (cases x)
  have r: "r < length (nodes w)" "rw = nodes w ! r"
    using x unfolding xr by (simp_all add: in_set_enumerate_eq)
  show "case x of (r, rw) \<Rightarrow> \<forall>(c, a) \<in> set (List.enumerate 0 rw).
           row (heap w a) = int r \<and> col (heap w a) = int c"
    unfolding xr prod.case
  proof
    fix y assume y: "y \<in> set (List.enumerate 0 rw)"
    obtain c a where yc: "y = (c, a)" by (cases y)
    have c: "c < length rw" "a = rw ! c"
      using y unfolding yc by (simp_all add: in_set_enumerate_eq)
    show "case y of (c, a) \<Rightarrow> row (heap w a) = int r \<and> col (heap w a) = int c"
      unfolding yc prod.case using assms(4)[of r c] r c by simp
  qed
qed

lemma wf_grid_cong:
  assumes "wf_grid w" "nodes w' = nodes w" "rows w' = rows w" "cols w' = cols w"
    "nextAddr w' = nextAddr w"
    "\<And>a. row (heap w' a) = row (heap w a) \<and> col (heap w' a) = col (heap w a) \<and>
          weight (heap w' a) = weight (heap w a)"
  shows "wf_grid w'"
  using assms unfolding wf_grid_def cells_def by simp

lemma single_filter:
  assumes "distinct xs"
  shows "length (filter P xs) = 1 \<and> x \<in> set xs \<and> P x \<longleftrightarrow>
         x \<in> set xs \<and> (\<forall>y \<in> set xs. P y \<longleftrightarrow> y = x)"
proof
  assume h: "length (filter P xs) = 1 \<and> x \<in> set xs \<and> P x"
  then obtain z where z: "filter P xs = [z]"
    by (cases "filter P xs") auto
  have "set (filter P xs) = {z}" unfolding z by simp
  then have a: "\<forall>y \<in> set xs. P y \<longleftrightarrow> y = z" by auto
  have hx: "x \<in> set xs" "P x" using h by simp_all
  then have "z = x" using a by auto
  then show "x \<in> set xs \<and> (\<forall>y \<in> set xs. P y \<longleftrightarrow> y = x)" using hx a by simp
next
  assume h: "x \<in> set xs \<and> (\<forall>y \<in> set xs. P y \<longleftrightarrow> y = x)"
  have d: "distinct (filter P xs)" using assms by simp
  have "set (filter P xs) = {x}" using h by auto
  then have "card (set (filter P xs)) = 1" by simp
  then have "length (filter P xs) = 1" using distinct_card[OF d] by simp
  then show "length (filter P xs) = 1 \<and> x \<in> set xs \<and> P x" using h by simp
qed

lemma grid_inv_iff:
  "grid_inv w \<longleftrightarrow> wf_grid w \<and> (\<exists>s e. roles_at w s e)"
proof
  assume gi: "grid_inv w"
  then have wf: "wf_grid w" and ex: "exclusive_roles w" by (simp_all add: grid_inv_def)
  from ex obtain s e where se: "startNode w = Ref s" "endNode w = Ref e"
    by (auto simp: exclusive_roles_def split: ref.splits)
  from ex se have m: "s \<in> set (cells w)" "e \<in> set (cells w)" "isStart (heap w s)"
    "isEnd (heap w e)" "s \<noteq> e"
    and c1: "length (filter (\<lambda>a. isStart (heap w a)) (cells w)) = 1"
    and c2: "length (filter (\<lambda>a. isEnd (heap w a)) (cells w)) = 1"
    and ex3: "\<forall>a \<in> set (cells w).
        \<not> (isStart (heap w a) \<and> isEnd (heap w a)) \<and>
        \<not> (isStart (heap w a) \<and> isWall (heap w a)) \<and>
        \<not> (isEnd (heap w a) \<and> isWall (heap w a))"
    by (simp_all add: exclusive_roles_def)
  have d: "distinct (cells w)" by (rule wf_distinct[OF wf])
  have s1: "\<forall>y \<in> set (cells w). isStart (heap w y) \<longleftrightarrow> y = s"
    using single_filter[OF d, of "\<lambda>a. isStart (heap w a)" s] c1 m by simp
  have e1: "\<forall>y \<in> set (cells w). isEnd (heap w y) \<longleftrightarrow> y = e"
    using single_filter[OF d, of "\<lambda>a. isEnd (heap w a)" e] c2 m by simp
  have "roles_at w s e" unfolding roles_at_def using se m s1 e1 ex3 by blast
  then show "wf_grid w \<and> (\<exists>s e. roles_at w s e)" using wf by blast
next
  assume h: "wf_grid w \<and> (\<exists>s e. roles_at w s e)"
  then obtain s e where r: "roles_at w s e" by blast
  have d: "distinct (cells w)" using h by (simp add: wf_distinct)
  from r have se: "startNode w = Ref s" "endNode w = Ref e"
    and m: "s \<in> set (cells w)" "e \<in> set (cells w)" "s \<noteq> e"
    and fl: "\<forall>a \<in> set (cells w). (isStart (heap w a) \<longleftrightarrow> a = s) \<and> (isEnd (heap w a) \<longleftrightarrow> a = e)"
    and nw: "\<not> isWall (heap w s)" "\<not> isWall (heap w e)"
    by (simp_all add: roles_at_def)
  have c1: "length (filter (\<lambda>a. isStart (heap w a)) (cells w)) = 1"
    using single_filter[OF d, of "\<lambda>a. isStart (heap w a)" s] fl m by simp
  have c2: "length (filter (\<lambda>a. isEnd (heap w a)) (cells w)) = 1"
    using single_filter[OF d, of "\<lambda>a. isEnd (heap w a)" e] fl m by simp
  have ex3: "\<forall>a \<in> set (cells w).
        \<not> (isStart (heap w a) \<and> isEnd (heap w a)) \<and>
        \<not> (isStart (heap w a) \<and> isWall (heap w a)) \<and>
        \<not> (isEnd (heap w a) \<and> isWall (heap w a))"
    using fl m nw by auto
  have "exclusive_roles w"
    unfolding exclusive_roles_def using c1 c2 ex3 se m fl by simp
  then show "grid_inv w" using h by (simp add: grid_inv_def)
qed

lemma roles_atD:
  assumes "roles_at w s e"
  shows "startNode w = Ref s" "endNode w = Ref e" "s \<in> set (cells w)" "e \<in> set (cells w)"
    "s \<noteq> e" "\<And>a. a \<in> set (cells w) \<Longrightarrow> isStart (heap w a) \<longleftrightarrow> a = s"
    "\<And>a. a \<in> set (cells w) \<Longrightarrow> isEnd (heap w a) \<longleftrightarrow> a = e"
    "\<not> isWall (heap w s)" "\<not> isWall (heap w e)"
  using assms unfolding roles_at_def by simp_all

lemma roles_atI:
  assumes "startNode w = Ref s" "endNode w = Ref e" "s \<in> set (cells w)" "e \<in> set (cells w)"
    "s \<noteq> e" "\<And>a. a \<in> set (cells w) \<Longrightarrow> isStart (heap w a) \<longleftrightarrow> a = s"
    "\<And>a. a \<in> set (cells w) \<Longrightarrow> isEnd (heap w a) \<longleftrightarrow> a = e"
    "\<not> isWall (heap w s)" "\<not> isWall (heap w e)"
  shows "roles_at w s e"
  using assms unfolding roles_at_def by simp

lemma setStartNode_roles:
  assumes wf: "wf_grid w" and ro: "roles_at w s e"
    and rc: "0 \<le> r" "0 \<le> c" "cellAt w (nat r) (nat c) = Some a" and ae: "a \<noteq> e"
  shows "\<exists>w'. setStartNode w (Some r) (Some c) = Returns w' \<and> wf_grid w' \<and> roles_at w' a e"
proof -
  note R = roles_atD[OF ro]
  define H where "H = (\<lambda>b. if b = a then setAsStart (heap w a)
                  else if startNode w = Ref b then (heap w b)\<lparr> isStart := False \<rparr>
                  else heap w b)"
  define w' where "w' = w\<lparr> startNode := Ref a, heap := H \<rparr>"
  have res: "setStartNode w (Some r) (Some c) = Returns w'"
    unfolding w'_def H_def by (rule setStartNode_in[OF rc])
  have f: "nodes w' = nodes w" "rows w' = rows w" "cols w' = cols w" "nextAddr w' = nextAddr w"
    "cells w' = cells w" "startNode w' = Ref a" "endNode w' = Ref e" "heap w' = H"
    using R(2) by (simp_all add: w'_def cells_def)
  have lay: "\<And>b. row (H b) = row (heap w b) \<and> col (H b) = col (heap w b) \<and>
          weight (H b) = weight (heap w b)"
    by (simp add: H_def setAsStart_def)
  have wf': "wf_grid w'" by (rule wf_grid_cong[OF wf f(1-4)]) (simp add: f(8) lay)
  have ac: "a \<in> set (cells w)" by (rule cellAt_in_cells[OF rc(3)])
  have "roles_at w' a e"
  proof (rule roles_atI)
    fix b assume b: "b \<in> set (cells w')"
    then have bc: "b \<in> set (cells w)" using f(5) by simp
    show "isStart (heap w' b) \<longleftrightarrow> b = a"
      unfolding f(8) H_def using R(1) R(6)[OF bc] by (simp add: setAsStart_def)
    show "isEnd (heap w' b) \<longleftrightarrow> b = e"
      unfolding f(8) H_def using R(7)[OF bc] R(7)[OF ac] ae by (simp add: setAsStart_def)
  next
    show "\<not> isWall (heap w' a)" unfolding f(8) H_def by (simp add: setAsStart_def)
    show "\<not> isWall (heap w' e)" unfolding f(8) H_def using R(9) ae by simp
  qed (use f ac R(4) ae in simp_all)
  then show ?thesis using res wf' by blast
qed

lemma setEndNode_roles:
  assumes wf: "wf_grid w" and ro: "roles_at w s e"
    and rc: "0 \<le> r" "0 \<le> c" "cellAt w (nat r) (nat c) = Some a" and ae: "a \<noteq> s"
  shows "\<exists>w'. setEndNode w (Some r) (Some c) = Returns w' \<and> wf_grid w' \<and> roles_at w' s a"
proof -
  note R = roles_atD[OF ro]
  define H where "H = (\<lambda>b. if b = a then setAsEnd (heap w a)
                  else if endNode w = Ref b then (heap w b)\<lparr> isEnd := False \<rparr>
                  else heap w b)"
  define w' where "w' = w\<lparr> endNode := Ref a, heap := H \<rparr>"
  have res: "setEndNode w (Some r) (Some c) = Returns w'"
    unfolding w'_def H_def by (rule setEndNode_in[OF rc])
  have f: "nodes w' = nodes w" "rows w' = rows w" "cols w' = cols w" "nextAddr w' = nextAddr w"
    "cells w' = cells w" "startNode w' = Ref s" "endNode w' = Ref a" "heap w' = H"
    using R(1) by (simp_all add: w'_def cells_def)
  have lay: "\<And>b. row (H b) = row (heap w b) \<and> col (H b) = col (heap w b) \<and>
          weight (H b) = weight (heap w b)"
    by (simp add: H_def setAsEnd_def)
  have wf': "wf_grid w'" by (rule wf_grid_cong[OF wf f(1-4)]) (simp add: f(8) lay)
  have ac: "a \<in> set (cells w)" by (rule cellAt_in_cells[OF rc(3)])
  have "roles_at w' s a"
  proof (rule roles_atI)
    fix b assume b: "b \<in> set (cells w')"
    then have bc: "b \<in> set (cells w)" using f(5) by simp
    show "isEnd (heap w' b) \<longleftrightarrow> b = a"
      unfolding f(8) H_def using R(2) R(7)[OF bc] by (simp add: setAsEnd_def)
    show "isStart (heap w' b) \<longleftrightarrow> b = s"
      unfolding f(8) H_def using R(6)[OF bc] R(6)[OF ac] ae by (simp add: setAsEnd_def)
  next
    show "\<not> isWall (heap w' a)" unfolding f(8) H_def by (simp add: setAsEnd_def)
    show "\<not> isWall (heap w' s)" unfolding f(8) H_def using R(8) ae by simp
  qed (use f ac R(3) ae in auto)
  then show ?thesis using res wf' by blast
qed

lemma handleMouseDown_roles:
  assumes wf: "wf_grid w" and ro: "roles_at w s e"
  shows "\<exists>w'. handleMouseDown pick w r c = Returns w' \<and> wf_grid w' \<and> roles_at w' s e"
proof -
  note R = roles_atD[OF ro]
  have gn: "getNode w r c = Inr (if 0 \<le> r \<and> 0 \<le> c then cellAt w (nat r) (nat c) else None)"
    by (rule getNode_wf[OF wf])
  show ?thesis
  proof (cases "if 0 \<le> r \<and> 0 \<le> c then cellAt w (nat r) (nat c) else None")
    case None
    then have "handleMouseDown pick w r c = Returns w"
      unfolding handleMouseDown_def gn by simp
    then show ?thesis using wf ro by simp
  next
    case (Some a)
    then have ca: "cellAt w (nat r) (nat c) = Some a" by (simp split: if_splits)
    have ac: "a \<in> set (cells w)" by (rule cellAt_in_cells[OF ca])
    have gn': "getNode w r c = Inr (Some a)" using gn Some by simp
    consider (st) "isStart (heap w a)" | (en) "\<not> isStart (heap w a)" "isEnd (heap w a)"
      | (no) "\<not> isStart (heap w a)" "\<not> isEnd (heap w a)" by blast
    then show ?thesis
    proof cases
      case st
      then have res: "handleMouseDown pick w r c = Returns (w\<lparr> mouseIsPressed := True, currentMode := StartMode \<rparr>)"
        unfolding handleMouseDown_def gn' by simp
      have "wf_grid (w\<lparr> mouseIsPressed := True, currentMode := StartMode \<rparr>)"
        by (rule wf_grid_cong[OF wf]) simp_all
      moreover have "roles_at (w\<lparr> mouseIsPressed := True, currentMode := StartMode \<rparr>) s e"
        using ro by (simp add: roles_at_def cells_def)
      ultimately show ?thesis using res by simp
    next
      case en
      then have res: "handleMouseDown pick w r c = Returns (w\<lparr> mouseIsPressed := True, currentMode := EndMode \<rparr>)"
        unfolding handleMouseDown_def gn' by simp
      have "wf_grid (w\<lparr> mouseIsPressed := True, currentMode := EndMode \<rparr>)"
        by (rule wf_grid_cong[OF wf]) simp_all
      moreover have "roles_at (w\<lparr> mouseIsPressed := True, currentMode := EndMode \<rparr>) s e"
        using ro by (simp add: roles_at_def cells_def)
      ultimately show ?thesis using res by simp
    next
      case no
      define n' where "n' = (heap w a)\<lparr> isWall := \<not> isWall (heap w a),
          wallType := (if \<not> isWall (heap w a) then Some pick else None) \<rparr>"
      define w' where "w' = w\<lparr> mouseIsPressed := True, currentMode := WallMode,
          heap := (heap w)(a := n') \<rparr>"
      have res: "handleMouseDown pick w r c = Returns w'"
        unfolding handleMouseDown_def gn' w'_def n'_def using no
        by (simp add: toggleWall_def updNode_def Let_def)
      have as: "a \<noteq> s" "a \<noteq> e" using no R(6)[OF ac] R(7)[OF ac] by simp_all
      have wf': "wf_grid w'"
        by (rule wf_grid_cong[OF wf]) (simp_all add: w'_def n'_def)
      have "roles_at w' s e"
        using ro as unfolding roles_at_def by (simp add: w'_def n'_def cells_def)
      then show ?thesis using res wf' by blast
    qed
  qed
qed

lemma clearWalls_wf:
  assumes "wf_grid w"
  shows "clearWalls w = Returns (w\<lparr> heap := (\<lambda>a. if a \<in> set (cells w)
     then (if isWall (heap w a) then (heap w a)\<lparr> isWall := False, wallType := None \<rparr> else heap w a)
     else heap w a) \<rparr>)"
  unfolding clearWalls_def by (rule forEachCell_wf[OF assms])

lemma clearWalls_roles:
  assumes wf: "wf_grid w" and ro: "roles_at w s e"
  shows "\<exists>w'. clearWalls w = Returns w' \<and> wf_grid w' \<and> roles_at w' s e \<and>
     (\<forall>a \<in> set (cells w'). \<not> isWall (heap w' a)) \<and> rows w' = rows w \<and> cols w' = cols w"
proof -
  define w' where "w' = w\<lparr> heap := (\<lambda>a. if a \<in> set (cells w)
     then (if isWall (heap w a) then (heap w a)\<lparr> isWall := False, wallType := None \<rparr> else heap w a)
     else heap w a) \<rparr>"
  have res: "clearWalls w = Returns w'" unfolding w'_def by (rule clearWalls_wf[OF wf])
  have wf': "wf_grid w'" by (rule wf_grid_cong[OF wf]) (simp_all add: w'_def)
  have "roles_at w' s e" using ro unfolding roles_at_def by (simp add: w'_def cells_def)
  moreover have "\<forall>a \<in> set (cells w'). \<not> isWall (heap w' a)" by (simp add: w'_def cells_def)
  moreover have "rows w' = rows w" "cols w' = cols w" by (simp_all add: w'_def)
  ultimately show ?thesis using res wf' by blast
qed

lemma wf_dims:
  assumes "wf_grid w" "rows w = Some R" "cols w = Some C" "1 \<le> R"
  shows "length (nodes w) = nat R" "r < nat R \<Longrightarrow> length (nodes w ! r) = nat C" "0 \<le> C"
proof -
  show l: "length (nodes w) = nat R" using wf_rows[OF assms(1)] assms(2) by simp
  have z: "0 < length (nodes w)" using l assms(4) by simp
  show "r < nat R \<Longrightarrow> length (nodes w ! r) = nat C"
    using wf_cols[OF assms(1), of r] l assms(3) by simp
  show "0 \<le> C" using wf_cols[OF assms(1) z] assms(3) by simp
qed

lemma cellAt_inj:
  assumes "wf_grid w" "cellAt w r c = Some a" "cellAt w r' c' = Some a"
  shows "r = r' \<and> c = c'"
proof -
  have 1: "r < length (nodes w)" "c < length (nodes w ! r)" "a = nodes w ! r ! c"
    using assms(2) by (simp_all add: cellAt_def split: if_splits)
  have 2: "r' < length (nodes w)" "c' < length (nodes w ! r')" "a = nodes w ! r' ! c'"
    using assms(3) by (simp_all add: cellAt_def split: if_splits)
  from wf_pos[OF assms(1) 1(1,2)] wf_pos[OF assms(1) 2(1,2)] 1(3) 2(3)
  show ?thesis by simp
qed

text \<open>The default placement on a grid with at least one row and one column.\<close>

lemma setDefaultStartEnd_props:
  assumes wf: "wf_grid w" and dims: "rows w = Some R" "cols w = Some C" "1 \<le> R" "1 \<le> C"
  shows "\<exists>w' ds de. setDefaultStartEnd w = Returns w' \<and> wf_grid w' \<and>
     nodes w' = nodes w \<and> rows w' = Some R \<and> cols w' = Some C \<and>
     startNode w' = Ref ds \<and> endNode w' = Ref de \<and>
     ds \<in> set (cells w) \<and> de \<in> set (cells w) \<and> (\<not> (R = 1 \<and> C = 1) \<longrightarrow> ds \<noteq> de) \<and>
     (\<forall>a. isWall (heap w' a) \<longrightarrow> isWall (heap w a)) \<and>
     \<not> isWall (heap w' ds) \<and> \<not> isWall (heap w' de) \<and> isEnd (heap w' de) \<and>
     (ds \<noteq> de \<longrightarrow> isStart (heap w' ds)) \<and>
     (tracked w \<longrightarrow> (\<forall>a \<in> set (cells w).
        (isEnd (heap w' a) \<longrightarrow> a = de) \<and> (isStart (heap w' a) \<longrightarrow> a = ds)))"
proof -
  note D = wf_dims[OF wf dims(1,2,3)]
  have b1: "nat (R div 4) < nat R" "nat ((3 * R) div 4) < nat R" using dims(3) by linarith+
  have b2: "nat (C div 4) < nat C" "nat ((3 * C) div 4) < nat C" using dims(4) by linarith+
  define ds where "ds = nodes w ! nat (R div 4) ! nat (C div 4)"
  define de where "de = nodes w ! nat ((3 * R) div 4) ! nat ((3 * C) div 4)"
  have cs: "cellAt w (nat (R div 4)) (nat (C div 4)) = Some ds"
    using b1 b2 D by (simp add: cellAt_def ds_def)
  have ce: "cellAt w (nat ((3 * R) div 4)) (nat ((3 * C) div 4)) = Some de"
    using b1 b2 D by (simp add: cellAt_def de_def)
  have q0: "0 \<le> R div 4" "0 \<le> C div 4" "0 \<le> (3 * R) div 4" "0 \<le> (3 * C) div 4"
    using dims(3,4) by simp_all
  have ne: "\<not> (R = 1 \<and> C = 1) \<longrightarrow> ds \<noteq> de"
  proof (intro impI notI)
    assume n: "\<not> (R = 1 \<and> C = 1)" and eq: "ds = de"
    have ce': "cellAt w (nat ((3 * R) div 4)) (nat ((3 * C) div 4)) = Some ds"
      using ce eq by simp
    from cellAt_inj[OF wf cs ce']
    have "nat (R div 4) = nat ((3 * R) div 4)" "nat (C div 4) = nat ((3 * C) div 4)" by blast+
    then have "R div 4 = (3 * R) div 4" "C div 4 = (3 * C) div 4"
      using eq_nat_nat_iff[OF q0(1) q0(3)] eq_nat_nat_iff[OF q0(2) q0(4)] by blast+
    then have "R = 1" "C = 1" using dims(3,4) quarter_eq by blast+
    then show False using n by simp
  qed
  define H1 where "H1 = (\<lambda>b. if b = ds then setAsStart (heap w ds)
                  else if startNode w = Ref b then (heap w b)\<lparr> isStart := False \<rparr>
                  else heap w b)"
  define w1 where "w1 = w\<lparr> startNode := Ref ds, heap := H1 \<rparr>"
  define H2 where "H2 = (\<lambda>b. if b = de then setAsEnd (H1 de)
                  else if endNode w = Ref b then (H1 b)\<lparr> isEnd := False \<rparr>
                  else H1 b)"
  define w2 where "w2 = w1\<lparr> endNode := Ref de, heap := H2 \<rparr>"
  have s1: "setStartNode w (Some (R div 4)) (Some (C div 4)) = Returns w1"
    unfolding w1_def H1_def by (rule setStartNode_in[OF q0(1,2) cs])
  have f1: "heap w1 = H1" "endNode w1 = endNode w" "rows w1 = Some R" "cols w1 = Some C"
    using dims(1,2) by (simp_all add: w1_def)
  have ce1: "cellAt w1 (nat ((3 * R) div 4)) (nat ((3 * C) div 4)) = Some de"
  proof -
    have "cellAt w1 (nat ((3 * R) div 4)) (nat ((3 * C) div 4))
        = cellAt w (nat ((3 * R) div 4)) (nat ((3 * C) div 4))"
      by (simp add: cellAt_def w1_def)
    then show ?thesis using ce by simp
  qed
  have s2: "setEndNode w1 (Some ((3 * R) div 4)) (Some ((3 * C) div 4)) = Returns w2"
    unfolding w2_def H2_def f1(1)[symmetric] f1(2)[symmetric]
    by (rule setEndNode_in[OF q0(3,4) ce1])
  have res: "setDefaultStartEnd w = Returns w2"
    unfolding setDefaultStartEnd_def using dims(1,2) s1 s2 f1(3,4)
    by (simp add: floorQuarter_def)
  have f2: "heap w2 = H2" "nodes w2 = nodes w" "rows w2 = Some R" "cols w2 = Some C"
    "nextAddr w2 = nextAddr w" "startNode w2 = Ref ds" "endNode w2 = Ref de"
    using dims(1,2) by (simp_all add: w2_def w1_def)
  have lay: "\<And>b. row (H2 b) = row (heap w b) \<and> col (H2 b) = col (heap w b) \<and>
          weight (H2 b) = weight (heap w b)"
    by (simp add: H2_def H1_def setAsStart_def setAsEnd_def)
  have wf': "wf_grid w2"
    by (rule wf_grid_cong[OF wf f2(2)]) (simp_all add: f2 dims lay)
  have m: "ds \<in> set (cells w)" "de \<in> set (cells w)"
    using cellAt_in_cells[OF cs] cellAt_in_cells[OF ce] by simp_all
  have p1: "\<forall>a. isWall (heap w2 a) \<longrightarrow> isWall (heap w a)"
    unfolding f2(1) by (simp add: H2_def H1_def setAsStart_def setAsEnd_def)
  have p2: "\<not> isWall (heap w2 ds)" "\<not> isWall (heap w2 de)" "isEnd (heap w2 de)"
    "ds \<noteq> de \<longrightarrow> isStart (heap w2 ds)"
    unfolding f2(1) by (simp_all add: H2_def H1_def setAsStart_def setAsEnd_def)
  have p3: "tracked w \<longrightarrow> (\<forall>a \<in> set (cells w).
        (isEnd (heap w2 a) \<longrightarrow> a = de) \<and> (isStart (heap w2 a) \<longrightarrow> a = ds))"
  proof (intro impI ballI)
    fix a assume tr: "tracked w" and a: "a \<in> set (cells w)"
    have e_imp: "isEnd (heap w a) \<longrightarrow> endNode w = Ref a"
      and s_imp: "isStart (heap w a) \<longrightarrow> startNode w = Ref a"
      using tr a by (simp_all add: tracked_def)
    show "(isEnd (heap w2 a) \<longrightarrow> a = de) \<and> (isStart (heap w2 a) \<longrightarrow> a = ds)"
      unfolding f2(1) using e_imp s_imp
      by (cases "a = de"; cases "a = ds"; cases "endNode w = Ref a"; cases "startNode w = Ref a")
         (simp_all add: H2_def H1_def setAsStart_def setAsEnd_def)
  qed
  show ?thesis
    by (intro exI[where x = w2] exI[where x = ds] exI[where x = de] conjI)
       (use res wf' m ne p1 p2 p3 f2(2-4,6,7) in blast)+
qed

section \<open>The import\<close>

lemma loadGridData_try_prepare:
  "loadGridData_try pick w d =
     andThen (loadPrepare w d)
       (\<lambda>w2. andThen
          (case d_walls d of None \<Rightarrow> Returns w2 | Some ws \<Rightarrow> restoreWalls pick d 0 ws w2)
          (\<lambda>w3. andThen
             (case d_startNode d of None \<Rightarrow> Returns w3
              | Some (r, c) \<Rightarrow> setStartNode w3 (Some r) (Some c))
             (\<lambda>w4. case d_endNode d of None \<Rightarrow> Returns w4
                | Some (r, c) \<Rightarrow> setEndNode w4 (Some r) (Some c))))"
  by (simp add: loadGridData_try_def loadPrepare_def)

lemma wf_rectangular: "wf_grid w \<Longrightarrow> rectangular w"
  by (auto simp: wf_grid_def rectangular_def rounds_def)






lemma clearEndpoints_fields [simp]:
  "nodes (clearEndpoints w) = nodes w" "rows (clearEndpoints w) = rows w"
  "cols (clearEndpoints w) = cols w"
  by (auto simp: clearEndpoints_def Let_def updNode_def split: ref.splits)
















subsection \<open>Fresh grids and the default placement\<close>

lemma initializeGrid_wf:
  assumes "rows w = Some R" "cols w = Some C" "0 \<le> R" "0 \<le> C"
  shows "wf_grid (initializeGrid w)"
    and "rows (initializeGrid w) = Some R" "cols (initializeGrid w) = Some C"
    and "startNode (initializeGrid w) = startNode w" "endNode (initializeGrid w) = endNode w"
    and "\<forall>a \<in> set (cells (initializeGrid w)). \<not> isStart (heap (initializeGrid w) a) \<and>
           \<not> isEnd (heap (initializeGrid w) a) \<and> \<not> isWall (heap (initializeGrid w) a)"
proof -
  have r: "rows w = Some (int (nat R))" and c: "cols w = Some (int (nat C))"
    using assms by simp_all
  note P = initializeGrid_props[OF r c]
  let ?w = "initializeGrid w"
  show rw: "rows ?w = Some R" "cols ?w = Some C" using P(7,8) assms(1,2) by simp_all
  show "startNode ?w = startNode w" "endNode ?w = endNode w" using P(9,10) by simp_all
  have cell: "\<And>r c. r < length (nodes ?w) \<Longrightarrow> c < length (nodes ?w ! r) \<Longrightarrow>
      heap ?w (nodes ?w ! r ! c) = new_Node (int r) (int c) \<and> nodes ?w ! r ! c < nextAddr ?w"
  proof -
    fix r c assume "r < length (nodes ?w)" "c < length (nodes ?w ! r)"
    then have rr: "r < nat R" and cc: "c < nat C" using P(1) P(2) by simp_all
    have "nodes ?w ! r ! c \<in> set (cells ?w)"
      unfolding in_cells_iff using \<open>r < length (nodes ?w)\<close> \<open>c < length (nodes ?w ! r)\<close> by blast
    then have "nodes ?w ! r ! c < nextAddr ?w" unfolding P(5) P(6) by simp
    then show "heap ?w (nodes ?w ! r ! c) = new_Node (int r) (int c) \<and> nodes ?w ! r ! c < nextAddr ?w"
      using P(3)[OF rr cc] P(4)[OF rr cc] by simp
  qed
  show "wf_grid ?w"
  proof (rule wf_gridI)
    show "rows ?w = Some (int (length (nodes ?w)))" using rw(1) P(1) assms(3) by simp
    show "\<And>r. r < length (nodes ?w) \<Longrightarrow> cols ?w = Some (int (length (nodes ?w ! r)))"
      using rw(2) P(1) P(2) assms(4) by simp
    show "distinct (cells ?w)" unfolding P(5) by simp
    show "\<And>r c. r < length (nodes ?w) \<Longrightarrow> c < length (nodes ?w ! r) \<Longrightarrow>
           nodes ?w ! r ! c < nextAddr ?w \<and> 0 < weight (heap ?w (nodes ?w ! r ! c)) \<and>
           row (heap ?w (nodes ?w ! r ! c)) = int r \<and> col (heap ?w (nodes ?w ! r ! c)) = int c"
      using cell by (simp add: new_Node_def)
  qed
  show "\<forall>a \<in> set (cells ?w). \<not> isStart (heap ?w a) \<and> \<not> isEnd (heap ?w a) \<and> \<not> isWall (heap ?w a)"
  proof
    fix a assume "a \<in> set (cells ?w)"
    then obtain r c where "r < length (nodes ?w)" "c < length (nodes ?w ! r)" "a = nodes ?w ! r ! c"
      unfolding in_cells_iff by blast
    then show "\<not> isStart (heap ?w a) \<and> \<not> isEnd (heap ?w a) \<and> \<not> isWall (heap ?w a)"
      using cell by (simp add: new_Node_def)
  qed
qed

text \<open>
  Placing the default start and end on a grid of at least two cells that has no
  obstacle and no stray role flag gives the role invariant.
\<close>

lemma setDefaultStartEnd_roles:
  assumes wf: "wf_grid w" and dims: "rows w = Some R" "cols w = Some C" "1 \<le> R" "1 \<le> C"
    "\<not> (R = 1 \<and> C = 1)"
    and tr: "tracked w" and nw: "\<forall>a \<in> set (cells w). \<not> isWall (heap w a)"
  shows "\<exists>w' ds de. setDefaultStartEnd w = Returns w' \<and> wf_grid w' \<and> nodes w' = nodes w \<and>
     rows w' = Some R \<and> cols w' = Some C \<and> roles_at w' ds de \<and>
     (\<forall>a \<in> set (cells w'). \<not> isWall (heap w' a))"
proof -
  from setDefaultStartEnd_props[OF wf dims(1-4)] obtain w' ds de where
    p: "setDefaultStartEnd w = Returns w'" "wf_grid w'" "nodes w' = nodes w"
    "rows w' = Some R" "cols w' = Some C" "startNode w' = Ref ds" "endNode w' = Ref de"
    "ds \<in> set (cells w)" "de \<in> set (cells w)" "\<not> (R = 1 \<and> C = 1) \<longrightarrow> ds \<noteq> de"
    "\<forall>a. isWall (heap w' a) \<longrightarrow> isWall (heap w a)"
    "\<not> isWall (heap w' ds)" "\<not> isWall (heap w' de)"
    "isEnd (heap w' de)" "ds \<noteq> de \<longrightarrow> isStart (heap w' ds)"
    "tracked w \<longrightarrow> (\<forall>a \<in> set (cells w).
        (isEnd (heap w' a) \<longrightarrow> a = de) \<and> (isStart (heap w' a) \<longrightarrow> a = ds))"
    by blast
  have c: "cells w' = cells w" using p(3) by (simp add: cells_def)
  have ne: "ds \<noteq> de" using p(10) dims(5) by blast
  have sf: "isStart (heap w' ds)" using p(15) ne by blast
  have fl: "\<And>a. a \<in> set (cells w) \<Longrightarrow>
        (isEnd (heap w' a) \<longrightarrow> a = de) \<and> (isStart (heap w' a) \<longrightarrow> a = ds)"
    using p(16) tr by blast
  have ro: "roles_at w' ds de"
  proof (rule roles_atI)
    show "startNode w' = Ref ds" "endNode w' = Ref de" by (rule p(6), rule p(7))
    show "ds \<in> set (cells w')" "de \<in> set (cells w')" unfolding c by (rule p(8), rule p(9))
    show "ds \<noteq> de" by (rule ne)
    show "\<And>a. a \<in> set (cells w') \<Longrightarrow> isStart (heap w' a) \<longleftrightarrow> a = ds"
      unfolding c using fl sf by blast
    show "\<And>a. a \<in> set (cells w') \<Longrightarrow> isEnd (heap w' a) \<longleftrightarrow> a = de"
      unfolding c using fl p(14) by blast
    show "\<not> isWall (heap w' ds)" "\<not> isWall (heap w' de)" by (rule p(12), rule p(13))
  qed
  have nw': "\<forall>a \<in> set (cells w'). \<not> isWall (heap w' a)"
  proof
    fix a assume "a \<in> set (cells w')"
    then have "\<not> isWall (heap w a)" using nw c by simp
    then show "\<not> isWall (heap w' a)" using p(11) by blast
  qed
  from p(1,2,3,4,5) ro nw' show ?thesis by blast
qed

lemma resetGrid_roles:
  assumes "rows w = Some R" "cols w = Some C" "1 \<le> R" "1 \<le> C" "\<not> (R = 1 \<and> C = 1)"
  shows "\<exists>w' ds de. resetGrid w = Returns w' \<and> wf_grid w' \<and>
     rows w' = Some R \<and> cols w' = Some C \<and> roles_at w' ds de \<and>
     (\<forall>a \<in> set (cells w'). \<not> isWall (heap w' a))"
proof -
  let ?wi = "initializeGrid w"
  have nn: "0 \<le> R" "0 \<le> C" using assms(3,4) by simp_all
  note W = initializeGrid_wf[OF assms(1,2) nn]
  have tr: "tracked ?wi" using W(6) by (simp add: tracked_def)
  have nw: "\<forall>a \<in> set (cells ?wi). \<not> isWall (heap ?wi a)" using W(6) by simp
  from setDefaultStartEnd_roles[OF W(1) W(2,3) assms(3,4,5) tr nw] show ?thesis
    unfolding resetGrid_def by blast
qed

lemma clearEndpoints_props:
  assumes "wf_grid w"
  shows "wf_grid (clearEndpoints w)"
    and "nodes (clearEndpoints w) = nodes w" "rows (clearEndpoints w) = rows w"
    and "cols (clearEndpoints w) = cols w"
    and "\<And>a. isWall (heap (clearEndpoints w) a) = isWall (heap w a)"
    and "tracked w \<Longrightarrow> a \<in> set (cells w) \<Longrightarrow>
           \<not> isStart (heap (clearEndpoints w) a) \<and> \<not> isEnd (heap (clearEndpoints w) a)"
proof -
  define w1 where "w1 = (case startNode w of
                 Ref a \<Rightarrow> (updNode w a (\<lambda>n. n\<lparr> isStart := False \<rparr>))\<lparr> startNode := Null \<rparr>
               | _ \<Rightarrow> w)"
  have ce: "clearEndpoints w = (case endNode w1 of
          Ref a \<Rightarrow> (updNode w1 a (\<lambda>n. n\<lparr> isEnd := False \<rparr>))\<lparr> endNode := Null \<rparr>
        | _ \<Rightarrow> w1)"
    unfolding clearEndpoints_def w1_def Let_def by (rule refl)
  have f1: "nodes w1 = nodes w" "rows w1 = rows w" "cols w1 = cols w" "nextAddr w1 = nextAddr w"
    "endNode w1 = endNode w"
    "\<And>a. row (heap w1 a) = row (heap w a) \<and> col (heap w1 a) = col (heap w a) \<and>
          weight (heap w1 a) = weight (heap w a) \<and> isWall (heap w1 a) = isWall (heap w a) \<and>
          isEnd (heap w1 a) = isEnd (heap w a)"
    "\<And>a. isStart (heap w1 a) \<longleftrightarrow> isStart (heap w a) \<and> startNode w \<noteq> Ref a"
    by (cases "startNode w"; simp add: w1_def; fail)+
  have f2: "nodes (clearEndpoints w) = nodes w1" "rows (clearEndpoints w) = rows w1"
    "cols (clearEndpoints w) = cols w1" "nextAddr (clearEndpoints w) = nextAddr w1"
    "\<And>a. row (heap (clearEndpoints w) a) = row (heap w1 a) \<and>
          col (heap (clearEndpoints w) a) = col (heap w1 a) \<and>
          weight (heap (clearEndpoints w) a) = weight (heap w1 a) \<and>
          isWall (heap (clearEndpoints w) a) = isWall (heap w1 a) \<and>
          isStart (heap (clearEndpoints w) a) = isStart (heap w1 a)"
    "\<And>a. isEnd (heap (clearEndpoints w) a) \<longleftrightarrow> isEnd (heap w1 a) \<and> endNode w1 \<noteq> Ref a"
    unfolding ce by (cases "endNode w1"; simp; fail)+
  show "wf_grid (clearEndpoints w)"
    by (rule wf_grid_cong[OF assms]) (simp_all add: f1 f2)
  show "nodes (clearEndpoints w) = nodes w" "rows (clearEndpoints w) = rows w"
    "cols (clearEndpoints w) = cols w" by (simp_all add: f1 f2)
  show "\<And>a. isWall (heap (clearEndpoints w) a) = isWall (heap w a)" by (simp add: f1 f2)
  show "tracked w \<Longrightarrow> a \<in> set (cells w) \<Longrightarrow>
           \<not> isStart (heap (clearEndpoints w) a) \<and> \<not> isEnd (heap (clearEndpoints w) a)"
    unfolding tracked_def by (auto simp: f1 f2)
qed

lemma loadPrepare_valid:
  assumes wf: "wf_grid w" and tr: "tracked w"
    and dims: "d_rows d = Some R" "d_cols d = Some C" "1 \<le> R" "1 \<le> C" "\<not> (R = 1 \<and> C = 1)"
  shows "\<exists>w2 ds de. loadPrepare w d = Returns w2 \<and> wf_grid w2 \<and>
     rows w2 = Some R \<and> cols w2 = Some C \<and> roles_at w2 ds de \<and>
     (\<forall>a \<in> set (cells w2). \<not> isWall (heap w2 a)) \<and>
     (d_rows d = rows w \<and> d_cols d = cols w \<longrightarrow> nodes w2 = nodes w)"
proof (cases "d_rows d \<noteq> rows w \<or> d_cols d \<noteq> cols w")
  case True
  let ?w0 = "w\<lparr> rows := d_rows d, cols := d_cols d \<rparr>"
  have r0: "rows ?w0 = Some R" "cols ?w0 = Some C" using dims(1,2) by simp_all
  from resetGrid_roles[OF r0 dims(3,4,5)] obtain w' ds de where
    p: "resetGrid ?w0 = Returns w'" "wf_grid w'" "rows w' = Some R" "cols w' = Some C"
    "roles_at w' ds de" "\<forall>a \<in> set (cells w'). \<not> isWall (heap w' a)" by blast
  have "loadPrepare w d = Returns w'"
    using True p(1) by (simp add: loadPrepare_def resize_def)
  then show ?thesis using p(2-6) True by blast
next
  case False
  then have eq: "rows w = Some R" "cols w = Some C" using dims(1,2) by simp_all
  define w1 where "w1 = w\<lparr> heap := (\<lambda>a. if a \<in> set (cells w)
     then (if isWall (heap w a) then (heap w a)\<lparr> isWall := False, wallType := None \<rparr> else heap w a)
     else heap w a) \<rparr>"
  have cw: "clearWalls w = Returns w1" unfolding w1_def by (rule clearWalls_wf[OF wf])
  have wf1: "wf_grid w1" by (rule wf_grid_cong[OF wf]) (simp_all add: w1_def)
  have c1: "cells w1 = cells w" by (simp add: w1_def cells_def)
  have tr1: "tracked w1" using tr unfolding tracked_def c1 by (simp add: w1_def)
  have nw1: "\<forall>a \<in> set (cells w1). \<not> isWall (heap w1 a)" by (simp add: w1_def cells_def)
  let ?w1' = "clearEndpoints w1"
  note E = clearEndpoints_props[OF wf1]
  have c1': "cells ?w1' = cells w1" using E(2) by (simp add: cells_def)
  have tr1': "tracked ?w1'" unfolding tracked_def c1' using E(6)[OF tr1] by blast
  have nw1': "\<forall>a \<in> set (cells ?w1'). \<not> isWall (heap ?w1' a)"
    unfolding c1' E(5) by (rule nw1)
  have d1': "rows ?w1' = Some R" "cols ?w1' = Some C" using E(3,4) eq by (simp_all add: w1_def)
  from setDefaultStartEnd_roles[OF E(1) d1' dims(3,4,5) tr1' nw1'] obtain w' ds de where
    p: "setDefaultStartEnd ?w1' = Returns w'" "wf_grid w'" "nodes w' = nodes ?w1'"
    "rows w' = Some R" "cols w' = Some C" "roles_at w' ds de"
    "\<forall>a \<in> set (cells w'). \<not> isWall (heap w' a)" by blast
  have "loadPrepare w d = Returns w'"
    using False cw p(1) by (simp add: loadPrepare_def andThen_def)
  moreover have "nodes w' = nodes w" using p(3) E(2) by (simp add: w1_def)
  ultimately show ?thesis using p(2,4-7) by blast
qed

subsection \<open>Wall entries and endpoints of a payload\<close>

lemma cellAt_cong: "nodes w' = nodes w \<Longrightarrow> cellAt w' r c = cellAt w r c"
  by (simp add: cellAt_def)

lemma cells_cong: "nodes w' = nodes w \<Longrightarrow> cells w' = cells w"
  by (simp add: cells_def)

text \<open>Restoring the wall entries on a well-formed grid.\<close>

lemma restoreWalls_wf:
  assumes "wf_grid w"
  shows "\<exists>w3. restoreWalls pick d i ws w = Returns w3 \<and> wf_grid w3 \<and> nodes w3 = nodes w \<and>
     rows w3 = rows w \<and> cols w3 = cols w \<and> startNode w3 = startNode w \<and>
     endNode w3 = endNode w \<and>
     (\<forall>a. isStart (heap w3 a) = isStart (heap w a) \<and> isEnd (heap w3 a) = isEnd (heap w a)) \<and>
     (\<forall>a. isWall (heap w3 a) \<longleftrightarrow> isWall (heap w a) \<or>
        (\<exists>(r, c, t) \<in> set ws. 0 \<le> r \<and> 0 \<le> c \<and> cellAt w (nat r) (nat c) = Some a \<and>
           d_startNode d \<noteq> Some (r, c) \<and> d_endNode d \<noteq> Some (r, c)))"
  using assms
proof (induction ws arbitrary: w i)
  case Nil
  then show ?case by simp
next
  case (Cons x ws)
  obtain r c t where x: "x = (r, c, t)" by (cases x)
  let ?hit = "\<lambda>a. 0 \<le> r \<and> 0 \<le> c \<and> cellAt w (nat r) (nat c) = Some a \<and>
           d_startNode d \<noteq> Some (r, c) \<and> d_endNode d \<noteq> Some (r, c)"
  note gn = getNode_wf[OF Cons.prems, of r c]
  show ?case
  proof (cases "\<exists>a. ?hit a")
    case False
    have st: "restoreWalls pick d i (x # ws) w = restoreWalls pick d (Suc i) ws w"
    proof (cases "0 \<le> r \<and> 0 \<le> c")
      case True
      show ?thesis
      proof (cases "cellAt w (nat r) (nat c)")
        case None
        then show ?thesis unfolding x using gn True by simp
      next
        case (Some a)
        then have "\<not> (d_startNode d \<noteq> Some (r, c) \<and> d_endNode d \<noteq> Some (r, c))"
          using False True by blast
        then show ?thesis unfolding x using gn True Some by auto
      qed
    next
      case False
      then show ?thesis unfolding x using gn by auto
    qed
    from Cons.IH[OF Cons.prems, of "Suc i"] obtain w3 where
      p: "restoreWalls pick d (Suc i) ws w = Returns w3" "wf_grid w3" "nodes w3 = nodes w"
      "rows w3 = rows w" "cols w3 = cols w" "startNode w3 = startNode w"
      "endNode w3 = endNode w"
      "\<forall>a. isStart (heap w3 a) = isStart (heap w a) \<and> isEnd (heap w3 a) = isEnd (heap w a)"
      "\<forall>a. isWall (heap w3 a) \<longleftrightarrow> isWall (heap w a) \<or>
        (\<exists>(r, c, t) \<in> set ws. 0 \<le> r \<and> 0 \<le> c \<and> cellAt w (nat r) (nat c) = Some a \<and>
           d_startNode d \<noteq> Some (r, c) \<and> d_endNode d \<noteq> Some (r, c))"
      by blast
    have w: "\<forall>a. isWall (heap w3 a) \<longleftrightarrow> isWall (heap w a) \<or>
        (\<exists>(r, c, t) \<in> set (x # ws). 0 \<le> r \<and> 0 \<le> c \<and> cellAt w (nat r) (nat c) = Some a \<and>
           d_startNode d \<noteq> Some (r, c) \<and> d_endNode d \<noteq> Some (r, c))"
      using p(9) False unfolding x by auto
    show ?thesis unfolding st using p(1-8) w by blast
  next
    case True
    then obtain a where a: "?hit a" by blast
    let ?w' = "updNode w a (\<lambda>n. n\<lparr> isWall := True, wallType := Some (orElse t (pick i)) \<rparr>)"
    have st: "restoreWalls pick d i (x # ws) w = restoreWalls pick d (Suc i) ws ?w'"
      unfolding x using gn a by simp
    have wf': "wf_grid ?w'" by (rule wf_grid_cong[OF Cons.prems]) simp_all
    from Cons.IH[OF wf', of "Suc i"] obtain w3 where
      p: "restoreWalls pick d (Suc i) ws ?w' = Returns w3" "wf_grid w3" "nodes w3 = nodes ?w'"
      "rows w3 = rows ?w'" "cols w3 = cols ?w'" "startNode w3 = startNode ?w'"
      "endNode w3 = endNode ?w'"
      "\<forall>b. isStart (heap w3 b) = isStart (heap ?w' b) \<and> isEnd (heap w3 b) = isEnd (heap ?w' b)"
      "\<forall>b. isWall (heap w3 b) \<longleftrightarrow> isWall (heap ?w' b) \<or>
        (\<exists>(r, c, t) \<in> set ws. 0 \<le> r \<and> 0 \<le> c \<and> cellAt ?w' (nat r) (nat c) = Some b \<and>
           d_startNode d \<noteq> Some (r, c) \<and> d_endNode d \<noteq> Some (r, c))"
      by blast
    have ca: "\<And>r c. cellAt ?w' r c = cellAt w r c" by (simp add: cellAt_def)
    have iw: "\<And>b. isWall (heap ?w' b) \<longleftrightarrow> isWall (heap w b) \<or> b = a" by simp
    have fl: "\<forall>b. isStart (heap w3 b) = isStart (heap w b) \<and> isEnd (heap w3 b) = isEnd (heap w b)"
      using p(8) by simp
    have w: "\<forall>b. isWall (heap w3 b) \<longleftrightarrow> isWall (heap w b) \<or>
        (\<exists>(r, c, t) \<in> set (x # ws). 0 \<le> r \<and> 0 \<le> c \<and> cellAt w (nat r) (nat c) = Some b \<and>
           d_startNode d \<noteq> Some (r, c) \<and> d_endNode d \<noteq> Some (r, c))"
    proof
      fix b
      have "isWall (heap w3 b) \<longleftrightarrow> (isWall (heap w b) \<or> b = a) \<or>
        (\<exists>(r, c, t) \<in> set ws. 0 \<le> r \<and> 0 \<le> c \<and> cellAt w (nat r) (nat c) = Some b \<and>
           d_startNode d \<noteq> Some (r, c) \<and> d_endNode d \<noteq> Some (r, c))"
        using p(9) unfolding ca iw by blast
      moreover have "b = a \<longleftrightarrow> ?hit b" using a by auto
      ultimately show "isWall (heap w3 b) \<longleftrightarrow> isWall (heap w b) \<or>
        (\<exists>(r, c, t) \<in> set (x # ws). 0 \<le> r \<and> 0 \<le> c \<and> cellAt w (nat r) (nat c) = Some b \<and>
           d_startNode d \<noteq> Some (r, c) \<and> d_endNode d \<noteq> Some (r, c))"
        unfolding x by auto
    qed
    have f: "nodes w3 = nodes w" "rows w3 = rows w" "cols w3 = cols w"
      "startNode w3 = startNode w" "endNode w3 = endNode w"
      using p(3-7) by simp_all
    show ?thesis unfolding st using p(1,2) f fl w by blast
  qed
qed

text \<open>Placing the start and then the end on two different cells.\<close>

lemma place_endpoints:
  assumes wf: "wf_grid w" and refs: "startNode w = Ref ds" "endNode w = Ref de"
    and fl: "\<forall>a \<in> set (cells w). (isStart (heap w a) \<longrightarrow> a = ds) \<and> (isEnd (heap w a) \<longrightarrow> a = de)"
    and s: "0 \<le> sr" "0 \<le> sc" "cellAt w (nat sr) (nat sc) = Some as"
    and e: "0 \<le> er" "0 \<le> ec" "cellAt w (nat er) (nat ec) = Some ae" and ne: "as \<noteq> ae"
  shows "\<exists>w5. andThen (setStartNode w (Some sr) (Some sc))
                 (\<lambda>w4. setEndNode w4 (Some er) (Some ec)) = Returns w5 \<and>
     wf_grid w5 \<and> nodes w5 = nodes w \<and> rows w5 = rows w \<and> cols w5 = cols w \<and>
     roles_at w5 as ae \<and>
     (\<forall>a. a \<noteq> as \<longrightarrow> a \<noteq> ae \<longrightarrow> isWall (heap w5 a) = isWall (heap w a))"
proof -
  define H1 where "H1 = (\<lambda>b. if b = as then setAsStart (heap w as)
                  else if startNode w = Ref b then (heap w b)\<lparr> isStart := False \<rparr>
                  else heap w b)"
  define w1 where "w1 = w\<lparr> startNode := Ref as, heap := H1 \<rparr>"
  define H2 where "H2 = (\<lambda>b. if b = ae then setAsEnd (H1 ae)
                  else if endNode w = Ref b then (H1 b)\<lparr> isEnd := False \<rparr>
                  else H1 b)"
  define w2 where "w2 = w1\<lparr> endNode := Ref ae, heap := H2 \<rparr>"
  have s1: "setStartNode w (Some sr) (Some sc) = Returns w1"
    unfolding w1_def H1_def by (rule setStartNode_in[OF s])
  have f1: "heap w1 = H1" "endNode w1 = endNode w" "nodes w1 = nodes w"
    by (simp_all add: w1_def)
  have ce1: "cellAt w1 (nat er) (nat ec) = Some ae"
    using e(3) cellAt_cong[OF f1(3)] by simp
  have s2: "setEndNode w1 (Some er) (Some ec) = Returns w2"
    unfolding w2_def H2_def f1(1)[symmetric] f1(2)[symmetric]
    by (rule setEndNode_in[OF e(1,2) ce1])
  have res: "andThen (setStartNode w (Some sr) (Some sc))
                 (\<lambda>w4. setEndNode w4 (Some er) (Some ec)) = Returns w2"
    using s1 s2 by (simp add: andThen_def)
  have f2: "heap w2 = H2" "nodes w2 = nodes w" "rows w2 = rows w" "cols w2 = cols w"
    "nextAddr w2 = nextAddr w" "startNode w2 = Ref as" "endNode w2 = Ref ae"
    by (simp_all add: w2_def w1_def)
  have lay: "\<And>b. row (H2 b) = row (heap w b) \<and> col (H2 b) = col (heap w b) \<and>
          weight (H2 b) = weight (heap w b)"
    by (simp add: H2_def H1_def setAsStart_def setAsEnd_def)
  have wf': "wf_grid w2"
    by (rule wf_grid_cong[OF wf f2(2)]) (simp_all add: f2 lay)
  have c2: "cells w2 = cells w" by (rule cells_cong[OF f2(2)])
  have m: "as \<in> set (cells w)" "ae \<in> set (cells w)"
    using cellAt_in_cells[OF s(3)] cellAt_in_cells[OF e(3)] by simp_all
  have hs2: "\<And>a. isStart (H2 a) \<longleftrightarrow> a \<noteq> ae \<and> isStart (H1 a)"
    by (simp add: H2_def setAsEnd_def)
  have hs1: "\<And>a. isStart (H1 a) \<longleftrightarrow> a = as \<or> (startNode w \<noteq> Ref a \<and> isStart (heap w a))"
    by (simp add: H1_def setAsStart_def)
  have he2: "\<And>a. isEnd (H2 a) \<longleftrightarrow> a = ae \<or> (endNode w \<noteq> Ref a \<and> isEnd (H1 a))"
    by (simp add: H2_def setAsEnd_def)
  have he1: "\<And>a. isEnd (H1 a) \<longleftrightarrow> a \<noteq> as \<and> isEnd (heap w a)"
    by (simp add: H1_def setAsStart_def)
  have st: "\<And>a. a \<in> set (cells w) \<Longrightarrow> isStart (H2 a) \<longleftrightarrow> a = as"
  proof -
    fix a assume a: "a \<in> set (cells w)"
    have "isStart (heap w a) \<longrightarrow> startNode w = Ref a" using fl a refs(1) by blast
    then show "isStart (H2 a) \<longleftrightarrow> a = as" unfolding hs2 hs1 using ne by blast
  qed
  have en: "\<And>a. a \<in> set (cells w) \<Longrightarrow> isEnd (H2 a) \<longleftrightarrow> a = ae"
  proof -
    fix a assume a: "a \<in> set (cells w)"
    have "isEnd (heap w a) \<longrightarrow> endNode w = Ref a" using fl a refs(2) by blast
    then show "isEnd (H2 a) \<longleftrightarrow> a = ae" unfolding he2 he1 by blast
  qed
  have nw: "\<not> isWall (H2 as)" "\<not> isWall (H2 ae)"
    using ne by (simp_all add: H2_def H1_def setAsStart_def setAsEnd_def)
  have ro: "roles_at w2 as ae"
  proof (rule roles_atI)
    show "startNode w2 = Ref as" "endNode w2 = Ref ae" by (rule f2(6), rule f2(7))
    show "as \<in> set (cells w2)" "ae \<in> set (cells w2)" unfolding c2 by (rule m(1), rule m(2))
    show "as \<noteq> ae" by (rule ne)
    show "\<And>a. a \<in> set (cells w2) \<Longrightarrow> isStart (heap w2 a) \<longleftrightarrow> a = as"
      unfolding c2 f2(1) by (rule st)
    show "\<And>a. a \<in> set (cells w2) \<Longrightarrow> isEnd (heap w2 a) \<longleftrightarrow> a = ae"
      unfolding c2 f2(1) by (rule en)
    show "\<not> isWall (heap w2 as)" "\<not> isWall (heap w2 ae)"
      unfolding f2(1) by (rule nw(1), rule nw(2))
  qed
  have ow: "\<forall>a. a \<noteq> as \<longrightarrow> a \<noteq> ae \<longrightarrow> isWall (heap w2 a) = isWall (heap w a)"
    unfolding f2(1) by (simp add: H2_def H1_def)
  from res wf' f2(2,3,4) ro ow show ?thesis by blast
qed

lemma inPayload_D:
  assumes "inPayload d r c" "d_rows d = Some R" "d_cols d = Some C"
  shows "0 \<le> r" "r < R" "0 \<le> c" "c < C"
  using assms by (simp_all add: inPayload_def)

lemma wf_cellAt_inside:
  assumes "wf_grid w" "rows w = Some R" "cols w = Some C" "0 \<le> r" "r < R" "0 \<le> c" "c < C"
  shows "cellAt w (nat r) (nat c) = Some (nodes w ! nat r ! nat c)"
proof -
  have R1: "1 \<le> R" using assms(4,5) by simp
  note D = wf_dims[OF assms(1-3) R1]
  have "nat r < nat R" using assms(4,5) by simp
  moreover have "nat c < nat C" using assms(6,7) by simp
  ultimately show ?thesis using D(1) D(2)[of "nat r"] by (simp add: cellAt_def)
qed

text \<open>
  The import of a payload with positive dimensions and a start and an end inside them,
  on different positions.
\<close>

lemma loadGridData_valid:
  assumes wf: "wf_grid w" and tr: "tracked w"
    and dims: "d_rows d = Some R" "d_cols d = Some C"
    and s: "d_startNode d = Some (sr, sc)" "inPayload d sr sc"
    and e: "d_endNode d = Some (er, ec)" "inPayload d er ec"
    and ne: "(sr, sc) \<noteq> (er, ec)"
    and ws: "ws = (case d_walls d of None \<Rightarrow> [] | Some l \<Rightarrow> l)"
  shows "\<exists>w' as ae. loadGridData pick w (Some d) = (True, w') \<and> wf_grid w' \<and>
     rows w' = Some R \<and> cols w' = Some C \<and> roles_at w' as ae \<and>
     cellAt w' (nat sr) (nat sc) = Some as \<and> cellAt w' (nat er) (nat ec) = Some ae \<and>
     (\<forall>a \<in> set (cells w'). isWall (heap w' a) \<longleftrightarrow>
        (\<exists>(r, c, t) \<in> set ws. 0 \<le> r \<and> 0 \<le> c \<and> cellAt w' (nat r) (nat c) = Some a \<and>
           (r, c) \<noteq> (sr, sc) \<and> (r, c) \<noteq> (er, ec))) \<and>
     (d_rows d = rows w \<and> d_cols d = cols w \<longrightarrow> nodes w' = nodes w)"
proof -
  note S = inPayload_D[OF s(2) dims]
  note E = inPayload_D[OF e(2) dims]
  have R1: "1 \<le> R" and C1: "1 \<le> C" using S by simp_all
  have n11: "\<not> (R = 1 \<and> C = 1)" using S E ne by auto
  from loadPrepare_valid[OF wf tr dims R1 C1 n11] obtain w2 ds de where
    p2: "loadPrepare w d = Returns w2" "wf_grid w2" "rows w2 = Some R" "cols w2 = Some C"
    "roles_at w2 ds de" "\<forall>a \<in> set (cells w2). \<not> isWall (heap w2 a)"
    "d_rows d = rows w \<and> d_cols d = cols w \<longrightarrow> nodes w2 = nodes w" by blast
  note ro2 = roles_atD[OF p2(5)]
  from restoreWalls_wf[OF p2(2), of pick d 0 ws] obtain w3 where
    p3: "restoreWalls pick d 0 ws w2 = Returns w3" "wf_grid w3" "nodes w3 = nodes w2"
    "rows w3 = rows w2" "cols w3 = cols w2" "startNode w3 = startNode w2"
    "endNode w3 = endNode w2"
    "\<forall>a. isStart (heap w3 a) = isStart (heap w2 a) \<and> isEnd (heap w3 a) = isEnd (heap w2 a)"
    "\<forall>a. isWall (heap w3 a) \<longleftrightarrow> isWall (heap w2 a) \<or>
        (\<exists>(r, c, t) \<in> set ws. 0 \<le> r \<and> 0 \<le> c \<and> cellAt w2 (nat r) (nat c) = Some a \<and>
           d_startNode d \<noteq> Some (r, c) \<and> d_endNode d \<noteq> Some (r, c))"
    by blast
  have wl: "(case d_walls d of None \<Rightarrow> Returns w2 | Some l \<Rightarrow> restoreWalls pick d 0 l w2)
              = Returns w3"
    using p3(1) ws by (cases "d_walls d") simp_all
  have c3: "cells w3 = cells w2" by (rule cells_cong[OF p3(3)])
  have ca3: "\<And>r c. cellAt w3 r c = cellAt w2 r c" by (rule cellAt_cong[OF p3(3)])
  have d3: "rows w3 = Some R" "cols w3 = Some C" using p3(4,5) p2(3,4) by simp_all
  have r3: "startNode w3 = Ref ds" "endNode w3 = Ref de" using p3(6,7) ro2(1,2) by simp_all
  have fl3: "\<forall>a \<in> set (cells w3). (isStart (heap w3 a) \<longrightarrow> a = ds) \<and> (isEnd (heap w3 a) \<longrightarrow> a = de)"
    unfolding c3 using p3(8) ro2(6,7) by simp
  define as where "as = nodes w3 ! nat sr ! nat sc"
  define ae where "ae = nodes w3 ! nat er ! nat ec"
  have cs: "cellAt w3 (nat sr) (nat sc) = Some as"
    unfolding as_def by (rule wf_cellAt_inside[OF p3(2) d3 S])
  have ce: "cellAt w3 (nat er) (nat ec) = Some ae"
    unfolding ae_def by (rule wf_cellAt_inside[OF p3(2) d3 E])
  have pos_inj: "\<And>r c r' c' a. 0 \<le> r \<Longrightarrow> 0 \<le> c \<Longrightarrow> 0 \<le> r' \<Longrightarrow> 0 \<le> c' \<Longrightarrow>
      cellAt w3 (nat r) (nat c) = Some a \<Longrightarrow> cellAt w3 (nat r') (nat c') = Some a \<Longrightarrow>
      (r, c) = (r', c')"
  proof -
    fix r c r' c' :: int and a
    assume n: "0 \<le> r" "0 \<le> c" "0 \<le> r'" "0 \<le> c'"
      and 1: "cellAt w3 (nat r) (nat c) = Some a" and 2: "cellAt w3 (nat r') (nat c') = Some a"
    from cellAt_inj[OF p3(2) 1 2] have "nat r = nat r'" "nat c = nat c'" by simp_all
    then have "r = r'" "c = c'" using n by linarith+
    then show "(r, c) = (r', c')" by simp
  qed
  have ne': "as \<noteq> ae"
  proof
    assume "as = ae"
    then have "cellAt w3 (nat er) (nat ec) = Some as" using ce by simp
    from pos_inj[OF S(1,3) E(1,3) cs this] show False using ne by simp
  qed
  from place_endpoints[OF p3(2) r3 fl3 S(1,3) cs E(1,3) ce ne'] obtain w5 where
    p5: "andThen (setStartNode w3 (Some sr) (Some sc))
                 (\<lambda>w4. setEndNode w4 (Some er) (Some ec)) = Returns w5"
    "wf_grid w5" "nodes w5 = nodes w3" "rows w5 = rows w3" "cols w5 = cols w3"
    "roles_at w5 as ae"
    "\<forall>a. a \<noteq> as \<longrightarrow> a \<noteq> ae \<longrightarrow> isWall (heap w5 a) = isWall (heap w3 a)"
    by blast
  have ld: "loadGridData_try pick w d = Returns w5"
    unfolding loadGridData_try_prepare p2(1) using wl p5(1) s(1) e(1)
    by (simp add: andThen_def)
  have res: "loadGridData pick w (Some d) = (True, w5)"
    using ld by (simp add: loadGridData_def)
  have c5: "cells w5 = cells w2" using cells_cong[OF p5(3)] c3 by simp
  have ca5: "\<And>r c. cellAt w5 r c = cellAt w3 r c" by (rule cellAt_cong[OF p5(3)])
  note ro5 = roles_atD[OF p5(6)]
  have walls: "\<forall>a \<in> set (cells w5). isWall (heap w5 a) \<longleftrightarrow>
        (\<exists>(r, c, t) \<in> set ws. 0 \<le> r \<and> 0 \<le> c \<and> cellAt w5 (nat r) (nat c) = Some a \<and>
           (r, c) \<noteq> (sr, sc) \<and> (r, c) \<noteq> (er, ec))"
  proof
    fix a assume a: "a \<in> set (cells w5)"
    let ?rhs = "\<exists>(r, c, t) \<in> set ws. 0 \<le> r \<and> 0 \<le> c \<and> cellAt w5 (nat r) (nat c) = Some a \<and>
           (r, c) \<noteq> (sr, sc) \<and> (r, c) \<noteq> (er, ec)"
    show "isWall (heap w5 a) \<longleftrightarrow> ?rhs"
    proof (cases "a = as \<or> a = ae")
      case True
      have l: "\<not> isWall (heap w5 a)" using True ro5(8,9) by blast
      have "\<not> ?rhs"
      proof
        assume ?rhs
        then obtain r c t where x: "0 \<le> r" "0 \<le> c" "cellAt w3 (nat r) (nat c) = Some a"
          "(r, c) \<noteq> (sr, sc)" "(r, c) \<noteq> (er, ec)" unfolding ca5 by auto
        show False
        proof (cases "a = as")
          case True
          from pos_inj[OF x(1,2) S(1,3) x(3)] cs True x(4) show False by simp
        next
          case False
          then have "a = ae" using \<open>a = as \<or> a = ae\<close> by simp
          from pos_inj[OF x(1,2) E(1,3) x(3)] ce this x(5) show False by simp
        qed
      qed
      then show ?thesis using l by simp
    next
      case False
      have "isWall (heap w5 a) = isWall (heap w3 a)" using p5(7) False by simp
      also have "\<dots> \<longleftrightarrow> (\<exists>(r, c, t) \<in> set ws. 0 \<le> r \<and> 0 \<le> c \<and>
           cellAt w2 (nat r) (nat c) = Some a \<and>
           d_startNode d \<noteq> Some (r, c) \<and> d_endNode d \<noteq> Some (r, c))"
        using p3(9) p2(6) a c5 by simp
      also have "\<dots> \<longleftrightarrow> ?rhs" unfolding ca5 ca3 s(1) e(1) by auto
      finally show ?thesis .
    qed
  qed
  have d5: "rows w5 = Some R" "cols w5 = Some C" using p5(4,5) d3 by simp_all
  have cs5: "cellAt w5 (nat sr) (nat sc) = Some as" "cellAt w5 (nat er) (nat ec) = Some ae"
    unfolding ca5 by (rule cs, rule ce)
  have nd: "d_rows d = rows w \<and> d_cols d = cols w \<longrightarrow> nodes w5 = nodes w"
    using p2(7) p5(3) p3(3) by simp
  show ?thesis
    by (intro exI[where x = w5] exI[where x = as] exI[where x = ae] conjI
          res p5(2) d5 p5(6) cs5 walls nd)
qed

lemma roles_tracked:
  assumes "roles_at w s e"
  shows "tracked w"
  unfolding tracked_def
proof (intro ballI conjI impI)
  fix a assume a: "a \<in> set (cells w)"
  note R = roles_atD[OF assms]
  show "isStart (heap w a) \<Longrightarrow> startNode w = Ref a" using R(6)[OF a] R(1) by simp
  show "isEnd (heap w a) \<Longrightarrow> endNode w = Ref a" using R(7)[OF a] R(2) by simp
qed

lemma grid_invI: "wf_grid w \<Longrightarrow> roles_at w s e \<Longrightarrow> grid_inv w"
  unfolding grid_inv_iff by blast

lemma new_Grid_roles:
  assumes "defaultArg r 10 = Some R" "defaultArg c 10 = Some C"
    and "1 \<le> R" "1 \<le> C" "\<not> (R = 1 \<and> C = 1)"
  shows "returned (new_Grid r c) \<and> grid_inv (outGrid (new_Grid r c))"
proof -
  let ?w0 = "\<lparr> heap = (\<lambda>_. new_Node 0 0), nextAddr = 0, rows = defaultArg r 10,
      cols = defaultArg c 10, nodes = [], startNode = Null, endNode = Null,
      mouseIsPressed = False, currentMode = WallMode \<rparr>"
  have ng: "new_Grid r c = resetGrid ?w0" by (simp add: new_Grid_def resetGrid_def)
  have d0: "rows ?w0 = Some R" "cols ?w0 = Some C" using assms(1,2) by simp_all
  from resetGrid_roles[OF d0 assms(3,4,5)] obtain w' ds de where
    "resetGrid ?w0 = Returns w'" "wf_grid w'" "roles_at w' ds de" by blast
  then show ?thesis unfolding ng using grid_invI by (simp add: returned_def outGrid_def)
qed

lemma resize_roles:
  assumes "1 \<le> R" "1 \<le> C" "\<not> (R = 1 \<and> C = 1)"
  shows "returned (resize w (Some R) (Some C)) \<and> grid_inv (outGrid (resize w (Some R) (Some C)))"
proof -
  let ?w0 = "w\<lparr> rows := Some R, cols := Some C \<rparr>"
  have d0: "rows ?w0 = Some R" "cols ?w0 = Some C" by simp_all
  from resetGrid_roles[OF d0 assms] obtain w' ds de where
    "resetGrid ?w0 = Returns w'" "wf_grid w'" "roles_at w' ds de" by blast
  then show ?thesis using grid_invI by (simp add: resize_def returned_def outGrid_def)
qed

lemma loadGridData_roles:
  assumes gi: "grid_inv w"
    and s: "d_startNode d = Some (sr, sc)" "inPayload d sr sc"
    and e: "d_endNode d = Some (er, ec)" "inPayload d er ec"
    and ne: "(sr, sc) \<noteq> (er, ec)"
  shows "fst (loadGridData pick w (Some d)) \<and> grid_inv (snd (loadGridData pick w (Some d)))"
proof -
  from gi obtain s0 e0 where wf: "wf_grid w" and ro: "roles_at w s0 e0"
    unfolding grid_inv_iff by blast
  obtain R C where dims: "d_rows d = Some R" "d_cols d = Some C"
    using s(2) by (auto simp: inPayload_def split: option.splits)
  from loadGridData_valid[OF wf roles_tracked[OF ro] dims s e ne refl, of pick]
  obtain w' as ae where "loadGridData pick w (Some d) = (True, w')" "wf_grid w'"
    "roles_at w' as ae" by blast
  then show ?thesis using grid_invI by simp
qed

subsection \<open>The export\<close>







subsection \<open>Claim C2: export and import\<close>




subsection \<open>Claim C3: malformed payloads\<close>




subsection \<open>Claim C4: the role invariant\<close>

text \<open>
  Claim C4, as the code has it. The invariant \<open>grid_inv\<close>: exactly one cell is the start
  and exactly one is the goal, no cell has two of the flags start, goal and obstacle,
  the grid's start and goal references are these two cells, and they differ.
  Construction and \<open>resize\<close> with at least one row and one column and more than one
  cell establish it (the constructor takes 10 for a missing argument). On a grid that
  has it: the obstacle toggle \<open>handleMouseDown\<close> and \<open>clearWalls\<close> keep it;
  \<open>setStartNode\<close> keeps it when the target is a cell that is not the goal, \<open>setEndNode\<close>
  when the target is a cell that is not the start; \<open>loadGridData\<close> returns \<open>true\<close> and
  gives it again when the payload has a start and a goal, both inside the payload's
  dimensions and on different positions.
\<close>

theorem grid_operations_keep_roles:
  "(defaultArg r0 10 = Some R \<and> defaultArg c0 10 = Some C \<and>
      1 \<le> R \<and> 1 \<le> C \<and> \<not> (R = 1 \<and> C = 1) \<longrightarrow>
      returned (new_Grid r0 c0) \<and> grid_inv (outGrid (new_Grid r0 c0)) \<and>
      returned (resize w (Some R) (Some C)) \<and> grid_inv (outGrid (resize w (Some R) (Some C)))) \<and>
   (grid_inv w \<longrightarrow>
      returned (handleMouseDown pk w r c) \<and> grid_inv (outGrid (handleMouseDown pk w r c)) \<and>
      returned (clearWalls w) \<and> grid_inv (outGrid (clearWalls w)) \<and>
      (0 \<le> r \<and> 0 \<le> c \<and> cellAt w (nat r) (nat c) = Some a \<and> endNode w \<noteq> Ref a \<longrightarrow>
         returned (setStartNode w (Some r) (Some c)) \<and>
         grid_inv (outGrid (setStartNode w (Some r) (Some c)))) \<and>
      (0 \<le> r \<and> 0 \<le> c \<and> cellAt w (nat r) (nat c) = Some a \<and> startNode w \<noteq> Ref a \<longrightarrow>
         returned (setEndNode w (Some r) (Some c)) \<and>
         grid_inv (outGrid (setEndNode w (Some r) (Some c)))) \<and>
      (d_startNode d = Some (sr, sc) \<and> inPayload d sr sc \<and>
       d_endNode d = Some (er, ec) \<and> inPayload d er ec \<and> (sr, sc) \<noteq> (er, ec) \<longrightarrow>
         fst (loadGridData pick w (Some d)) \<and> grid_inv (snd (loadGridData pick w (Some d)))))"
proof (intro conjI impI)
  assume a: "defaultArg r0 10 = Some R \<and> defaultArg c0 10 = Some C \<and>
      1 \<le> R \<and> 1 \<le> C \<and> \<not> (R = 1 \<and> C = 1)"
  then have n: "returned (new_Grid r0 c0) \<and> grid_inv (outGrid (new_Grid r0 c0))"
    using new_Grid_roles[of r0 R c0 C] by blast
  from a have z: "returned (resize w (Some R) (Some C)) \<and>
      grid_inv (outGrid (resize w (Some R) (Some C)))"
    using resize_roles[of R C w] by blast
  from n show "returned (new_Grid r0 c0)" "grid_inv (outGrid (new_Grid r0 c0))" by simp_all
  from z show "returned (resize w (Some R) (Some C))"
    "grid_inv (outGrid (resize w (Some R) (Some C)))" by simp_all
next
  assume gi: "grid_inv w"
  then obtain s e where wf: "wf_grid w" and ro: "roles_at w s e"
    unfolding grid_inv_iff by blast
  from handleMouseDown_roles[OF wf ro, of pk r c] obtain w' where
    "handleMouseDown pk w r c = Returns w'" "wf_grid w'" "roles_at w' s e" by blast
  then have h: "returned (handleMouseDown pk w r c) \<and> grid_inv (outGrid (handleMouseDown pk w r c))"
    using grid_invI by (simp add: returned_def outGrid_def)
  from h show "returned (handleMouseDown pk w r c)" by simp
  from h show "grid_inv (outGrid (handleMouseDown pk w r c))" by simp
  from clearWalls_roles[OF wf ro] obtain w' where
    "clearWalls w = Returns w'" "wf_grid w'" "roles_at w' s e" by blast
  then have h: "returned (clearWalls w) \<and> grid_inv (outGrid (clearWalls w))"
    using grid_invI by (simp add: returned_def outGrid_def)
  from h show "returned (clearWalls w)" by simp
  from h show "grid_inv (outGrid (clearWalls w))" by simp
  {
    assume t: "0 \<le> r \<and> 0 \<le> c \<and> cellAt w (nat r) (nat c) = Some a \<and> endNode w \<noteq> Ref a"
    then have ae: "a \<noteq> e" using roles_atD(2)[OF ro] by auto
    from t setStartNode_roles[OF wf ro _ _ _ ae, of r c] obtain w' where
      "setStartNode w (Some r) (Some c) = Returns w'" "wf_grid w'" "roles_at w' a e" by blast
    then have h: "returned (setStartNode w (Some r) (Some c)) \<and>
         grid_inv (outGrid (setStartNode w (Some r) (Some c)))"
      using grid_invI by (simp add: returned_def outGrid_def)
    from h show "returned (setStartNode w (Some r) (Some c))" by simp
    from h show "grid_inv (outGrid (setStartNode w (Some r) (Some c)))" by simp
  }
  {
    assume t: "0 \<le> r \<and> 0 \<le> c \<and> cellAt w (nat r) (nat c) = Some a \<and> startNode w \<noteq> Ref a"
    then have ae: "a \<noteq> s" using roles_atD(1)[OF ro] by auto
    from t setEndNode_roles[OF wf ro _ _ _ ae, of r c] obtain w' where
      "setEndNode w (Some r) (Some c) = Returns w'" "wf_grid w'" "roles_at w' s a" by blast
    then have h: "returned (setEndNode w (Some r) (Some c)) \<and>
         grid_inv (outGrid (setEndNode w (Some r) (Some c)))"
      using grid_invI by (simp add: returned_def outGrid_def)
    from h show "returned (setEndNode w (Some r) (Some c))" by simp
    from h show "grid_inv (outGrid (setEndNode w (Some r) (Some c)))" by simp
  }
  {
    assume t: "d_startNode d = Some (sr, sc) \<and> inPayload d sr sc \<and>
       d_endNode d = Some (er, ec) \<and> inPayload d er ec \<and> (sr, sc) \<noteq> (er, ec)"
    then have h: "fst (loadGridData pick w (Some d)) \<and> grid_inv (snd (loadGridData pick w (Some d)))"
      using loadGridData_roles[OF gi, of d sr sc er ec pick] by blast
    from h show "fst (loadGridData pick w (Some d))" by simp
    from h show "grid_inv (snd (loadGridData pick w (Some d)))" by simp
  }
qed

theorem grid_operations_keep_roles_witness:
  "defaultArg None 10 = Some 10 \<and> defaultArg (Some 2) 10 = Some 2 \<and> grid_inv grid22 \<and>
   cellAt grid22 (nat 0) (nat 1) = Some 1 \<and> endNode grid22 \<noteq> Ref 1 \<and>
   startNode grid22 \<noteq> Ref 1 \<and>
   d_startNode validPayload = Some (1, 0) \<and> inPayload validPayload 1 0 \<and>
   d_endNode validPayload = Some (0, 0) \<and> inPayload validPayload 0 0 \<and>
   grid_inv (outGrid (new_Grid None (Some 2))) \<and>
   grid_inv (outGrid (resize grid22 (Some 10) (Some 2))) \<and>
   grid_inv (outGrid (handleMouseDown 1 grid22 0 1)) \<and>
   isWall (heap (outGrid (handleMouseDown 1 grid22 0 1)) 1) \<and>
   grid_inv (outGrid (clearWalls grid22)) \<and>
   grid_inv (outGrid (setStartNode grid22 (Some 0) (Some 1))) \<and>
   grid_inv (outGrid (setEndNode grid22 (Some 0) (Some 1))) \<and>
   fst (loadGridData (\<lambda>i. 1) grid22 (Some validPayload)) \<and>
   grid_inv (snd (loadGridData (\<lambda>i. 1) grid22 (Some validPayload))) \<and>
   startNode (snd (loadGridData (\<lambda>i. 1) grid22 (Some validPayload))) = Ref 2"
proof -
  have h: "defaultArg None 10 = Some 10" "defaultArg (Some 2) 10 = Some 2" "grid_inv grid22"
    "cellAt grid22 (nat 0) (nat 1) = Some 1" "endNode grid22 \<noteq> Ref 1"
    "startNode grid22 \<noteq> Ref 1"
    "d_startNode validPayload = Some (1, 0)" "inPayload validPayload 1 0"
    "d_endNode validPayload = Some (0, 0)" "inPayload validPayload 0 0"
    by code_simp+
  have x: "isWall (heap (outGrid (handleMouseDown 1 grid22 0 1)) 1)"
    "startNode (snd (loadGridData (\<lambda>i. 1) grid22 (Some validPayload))) = Ref 2"
    by code_simp+
  from grid_operations_keep_roles[of None 10 "Some 2" 2 grid22 1 0 1 1 validPayload 1 0 0 0 "\<lambda>i. 1"]
    h x show ?thesis by simp
qed

text \<open>
  The claim as it is written fails on the 2 x 2 grid, which has the invariant:
  \<open>setStartNode\<close> on the goal cell (1, 1) is carried out and leaves no goal cell;
  \<open>resize\<close> to no rows throws and leaves a grid without cells; the import of the payload
  \<open>wallOnStart\<close> is accepted and leaves the start cell an obstacle. The grid of one
  cell is constructed with its only cell as the goal and no start cell.
\<close>

theorem grid_operations_counterexample:
  "grid_inv grid22 \<and>
   returned (setStartNode grid22 (Some 1) (Some 1)) \<and>
   \<not> grid_inv (outGrid (setStartNode grid22 (Some 1) (Some 1))) \<and>
   \<not> returned (resize grid22 (Some 0) (Some 0)) \<and>
   \<not> grid_inv (outGrid (resize grid22 (Some 0) (Some 0))) \<and>
   fst (loadGridData (\<lambda>i. 1) grid22 (Some wallOnStart)) \<and>
   \<not> grid_inv (snd (loadGridData (\<lambda>i. 1) grid22 (Some wallOnStart))) \<and>
   returned (new_Grid (Some 1) (Some 1)) \<and> \<not> grid_inv (outGrid (new_Grid (Some 1) (Some 1)))"
  by code_simp
subsection \<open>Claim C5: setStart and setGoal\<close>

text \<open>
  Claim C5, as the code has it. \<open>setStartNode\<close> and \<open>setEndNode\<close> have no guard. For a target
  inside the node array the call returns, the target becomes the start (the end): its
  role flag is set, its obstacle flag and its opposite role flag are cleared, so a target
  that holds the opposite role is taken over, not refused; the previous holder loses the
  flag; no other node and no other field of the grid changes. For a target outside the
  node array the call throws a \<open>TypeError\<close>.
\<close>

theorem setStartNode_setEndNode_move_role:
  "(0 \<le> r \<and> 0 \<le> c \<and> cellAt w (nat r) (nat c) = Some a \<longrightarrow>
      (let S = outGrid (setStartNode w (Some r) (Some c)) in
         returned (setStartNode w (Some r) (Some c)) \<and> startNode S = Ref a \<and>
         heap S a = (heap w a)\<lparr> isStart := True, isEnd := False, isWall := False \<rparr> \<and>
         (\<forall>p. startNode w = Ref p \<and> p \<noteq> a \<longrightarrow> heap S p = (heap w p)\<lparr> isStart := False \<rparr>) \<and>
         (\<forall>b. b \<noteq> a \<and> startNode w \<noteq> Ref b \<longrightarrow> heap S b = heap w b) \<and>
         nodes S = nodes w \<and> rows S = rows w \<and> cols S = cols w \<and> endNode S = endNode w) \<and>
      (let E = outGrid (setEndNode w (Some r) (Some c)) in
         returned (setEndNode w (Some r) (Some c)) \<and> endNode E = Ref a \<and>
         heap E a = (heap w a)\<lparr> isEnd := True, isStart := False, isWall := False \<rparr> \<and>
         (\<forall>p. endNode w = Ref p \<and> p \<noteq> a \<longrightarrow> heap E p = (heap w p)\<lparr> isEnd := False \<rparr>) \<and>
         (\<forall>b. b \<noteq> a \<and> endNode w \<noteq> Ref b \<longrightarrow> heap E b = heap w b) \<and>
         nodes E = nodes w \<and> rows E = rows w \<and> cols E = cols w \<and> startNode E = startNode w)) \<and>
   (r < 0 \<or> c < 0 \<or> cellAt w (nat r) (nat c) = None \<longrightarrow>
      (\<exists>w'. setStartNode w (Some r) (Some c) = Throws TypeError w') \<and>
      (\<exists>w'. setEndNode w (Some r) (Some c) = Throws TypeError w'))"
proof (intro conjI impI)
  assume "0 \<le> r \<and> 0 \<le> c \<and> cellAt w (nat r) (nat c) = Some a"
  then have h: "0 \<le> r" "0 \<le> c" "cellAt w (nat r) (nat c) = Some a" by simp_all
  show "let S = outGrid (setStartNode w (Some r) (Some c)) in
         returned (setStartNode w (Some r) (Some c)) \<and> startNode S = Ref a \<and>
         heap S a = (heap w a)\<lparr> isStart := True, isEnd := False, isWall := False \<rparr> \<and>
         (\<forall>p. startNode w = Ref p \<and> p \<noteq> a \<longrightarrow> heap S p = (heap w p)\<lparr> isStart := False \<rparr>) \<and>
         (\<forall>b. b \<noteq> a \<and> startNode w \<noteq> Ref b \<longrightarrow> heap S b = heap w b) \<and>
         nodes S = nodes w \<and> rows S = rows w \<and> cols S = cols w \<and> endNode S = endNode w"
    unfolding setStartNode_in[OF h] by (simp add: outGrid_def returned_def setAsStart_def)
  show "let E = outGrid (setEndNode w (Some r) (Some c)) in
         returned (setEndNode w (Some r) (Some c)) \<and> endNode E = Ref a \<and>
         heap E a = (heap w a)\<lparr> isEnd := True, isStart := False, isWall := False \<rparr> \<and>
         (\<forall>p. endNode w = Ref p \<and> p \<noteq> a \<longrightarrow> heap E p = (heap w p)\<lparr> isEnd := False \<rparr>) \<and>
         (\<forall>b. b \<noteq> a \<and> endNode w \<noteq> Ref b \<longrightarrow> heap E b = heap w b) \<and>
         nodes E = nodes w \<and> rows E = rows w \<and> cols E = cols w \<and> startNode E = startNode w"
    unfolding setEndNode_in[OF h] by (simp add: outGrid_def returned_def setAsEnd_def)
next
  assume h: "r < 0 \<or> c < 0 \<or> cellAt w (nat r) (nat c) = None"
  show "\<exists>w'. setStartNode w (Some r) (Some c) = Throws TypeError w'"
    by (rule setStartNode_out[OF h])
  show "\<exists>w'. setEndNode w (Some r) (Some c) = Throws TypeError w'"
    by (rule setEndNode_out[OF h])
qed

theorem setStartNode_setEndNode_move_role_witness:
  "(0 \<le> (1::int) \<and> 0 \<le> (0::int) \<and> cellAt grid22 (nat 1) (nat 0) = Some 2) \<and>
   startNode (outGrid (setStartNode grid22 (Some 1) (Some 0))) = Ref 2 \<and>
   endNode (outGrid (setEndNode grid22 (Some 1) (Some 0))) = Ref 2 \<and>
   cellAt grid22 (nat 5) (nat 0) = None \<and>
   (\<exists>w'. setStartNode grid22 (Some 5) (Some 0) = Throws TypeError w')"
proof -
  have a: "0 \<le> (1::int) \<and> 0 \<le> (0::int) \<and> cellAt grid22 (nat 1) (nat 0) = Some 2" by code_simp
  have b: "cellAt grid22 (nat 5) (nat 0) = None" by code_simp
  show ?thesis
    using a b setStartNode_setEndNode_move_role[of 1 0 grid22 2]
      setStartNode_setEndNode_move_role[of 5 0 grid22 0]
    by (simp add: Let_def)
qed


text \<open>
  The claim as stated fails on the 2 x 2 grid: \<open>setStartNode(1, 1)\<close> on the end cell is
  carried out, and \<open>setStartNode(5, 0)\<close> throws after it has cleared the start flag of
  the previous start.
\<close>

theorem setStartNode_rejection_counterexample:
  "endNode grid22 = Ref 3 \<and> cellAt grid22 1 1 = Some 3 \<and> isEnd (heap grid22 3) \<and>
   startNode grid22 = Ref 0 \<and>
   returned (setStartNode grid22 (Some 1) (Some 1)) \<and>
   startNode (outGrid (setStartNode grid22 (Some 1) (Some 1))) = Ref 3 \<and>
   \<not> isEnd (heap (outGrid (setStartNode grid22 (Some 1) (Some 1))) 3) \<and>
   cellAt grid22 5 0 = None \<and>
   \<not> returned (setStartNode grid22 (Some 5) (Some 0)) \<and>
   isStart (heap grid22 0) \<and>
   \<not> isStart (heap (outGrid (setStartNode grid22 (Some 5) (Some 0))) 0)"
  by code_simp
subsection \<open>Claim C6: no path\<close>

text \<open>
  Claim C6, as the code has it. \<open>findPath\<close> never reads the obstacle flag of the start:
  on a well-formed grid, if no orthogonal walk leads from the start to the goal over
  cells that are no obstacles (the start itself left untested), then \<open>findPath\<close>, called
  on a search object that is not running, ends with the open set empty and returns
  \<open>null\<close>, its ordinary not-found value, not an exception; the stored path is empty and
  the object is no longer running. When the start is a cell and no obstacle these walks
  are the obstacle-free paths of the claim.
\<close>

theorem findPath_no_path_returns_null:
  assumes "wf_grid G" "startNode G = Ref s" "endNode G = Ref e"
    and "\<not> isRunning A"
    and "\<forall>p. \<not> (walk G p \<and> hd p = s \<and> last p = e)"
  shows "\<exists>A' G'. findPath A G = Some (ReturnsNull, A', G') \<and>
     openSet A' = [] \<and> path A' = [] \<and> \<not> isRunning A'"
proof -
  from findPath_loop_outcome[OF assms(1), of e A s] obtain st A3 G3 where
    w: "while_option findPath_cond (findPath_step e)
            (Searching, initAStar A s, initGrid G s e) = Some (st, A3, G3)"
    and li: "loop_inv G s e (st, A3, G3)" and nc: "\<not> findPath_cond (st, A3, G3)" by blast
  have fp: "findPath A G = (case st of
           Reached \<Rightarrow>
             (case reconstructPath (heap G3) e of
                None \<Rightarrow> None
              | Some p \<Rightarrow>
                  Some (ReturnsResult
                          \<lparr> r_path = p, r_visitedNodes = visitedNodes A3,
                            r_pathLength = length p,
                            r_nodesExplored = nodesExplored A3 \<rparr>,
                        A3\<lparr> path := p, isRunning := False \<rparr>, G3))
         | Searching \<Rightarrow> Some (ReturnsNull, A3\<lparr> isRunning := False \<rparr>, G3)
         | Crashed \<Rightarrow> Some (ThrowsError TypeError, A3, G3))"
    unfolding findPath_unfold[OF assms(4,2,3,1)] w by simp
  have si: "search_inv G s (A3, G3)" and run: "isRunning A3" and pe: "path A3 = []"
    and nc': "st \<noteq> Crashed" and re: "st = Reached \<longrightarrow> e \<in> set (openSet A3)"
    using li by (simp_all add: loop_inv_def)
  have "st \<noteq> Reached"
  proof
    assume r: "st = Reached"
    then have es: "e \<in> seen A3" using re by (simp add: seen_def)
    from search_invD(9)[OF si es] obtain n where "g (heap G3 e) = enat n" by auto
    from known_walk[OF si assms(1) es this] assms(5) show False by blast
  qed
  then have st: "st = Searching" using nc' by (cases st) simp_all
  have oe: "openSet A3 = []" using nc run st by (simp add: findPath_cond_def)
  have "findPath A G = Some (ReturnsNull, A3\<lparr> isRunning := False \<rparr>, G3)"
    unfolding fp st by simp
  then show ?thesis using oe pe by simp
qed

theorem findPath_no_path_returns_null_witness:
  "wf_grid gridBlocked \<and> startNode gridBlocked = Ref 0 \<and> endNode gridBlocked = Ref 3 \<and>
   \<not> isRunning new_AStar \<and>
   (\<forall>p. \<not> (walk gridBlocked p \<and> hd p = 0 \<and> last p = 3)) \<and>
   (\<exists>A' G'. findPath new_AStar gridBlocked = Some (ReturnsNull, A', G') \<and>
      openSet A' = [] \<and> path A' = [] \<and> \<not> isRunning A')"
proof -
  have h: "wf_grid gridBlocked" "startNode gridBlocked = Ref 0" "endNode gridBlocked = Ref 3"
    "\<not> isRunning new_AStar"
    by code_simp+
  have np: "\<forall>p. \<not> (walk gridBlocked p \<and> hd p = 0 \<and> last p = 3)"
    using gridBlocked_no_walk by blast
  from findPath_no_path_returns_null[OF h np] h np show ?thesis by blast
qed

text \<open>
  The claim as it is written fails on a grid an import produces: \<open>loadGridData\<close> accepts
  the payload \<open>wallOnStart\<close> on the 2 x 2 grid and leaves the start cell 0 an obstacle, so
  that no obstacle-free path starts there; \<open>findPath\<close> does not return \<open>null\<close> but the
  result with the path 0, 1, 3.
\<close>

theorem findPath_no_path_counterexample:
  "fst (loadGridData (\<lambda>i. 1) grid22 (Some wallOnStart)) \<and>
   wf_grid gridWalledStart \<and> startNode gridWalledStart = Ref 0 \<and>
   endNode gridWalledStart = Ref 3 \<and> 0 \<in> set (cells gridWalledStart) \<and>
   isWall (heap gridWalledStart 0) \<and> \<not> is_path gridWalledStart 0 3 [0, 1, 3] \<and>
   \<not> returnsNull (findPath new_AStar gridWalledStart) \<and>
   resultPath (findPath new_AStar gridWalledStart) = Some [0, 1, 3]"
  by code_simp

subsection \<open>Claim C7: the node taken from the open set\<close>

text \<open>
  Claim C7. In every round of the loop of \<open>findPath\<close>, on a non-empty open set, the node
  taken is an entry of the open array with the lowest \<open>f\<close> and, among the entries of
  that \<open>f\<close>, the lowest \<open>h\<close>; every entry in front of it is strictly worse in \<open>f\<close>, or
  equal in \<open>f\<close> and strictly worse in \<open>h\<close>, so among entries equal in both it is the first
  of the array. The array is in insertion order: the round takes exactly that entry out,
  keeps the other entries in their order, and appends the neighbours that are new in the
  open set behind them, in the order of the neighbour list; the node taken is appended
  to the closed set. If the node taken is the goal, the round leaves the loop and
  changes nothing. The order of the visits is so a function of the grid.
\<close>

theorem findPath_step_selects_first_lowest:
  assumes "openSet A \<noteq> []"
  shows "\<exists>i < length (openSet A).
     (\<forall>j < length (openSet A).
        f (heap G (openSet A ! i)) < f (heap G (openSet A ! j)) \<or>
        (f (heap G (openSet A ! i)) = f (heap G (openSet A ! j)) \<and>
         h (heap G (openSet A ! i)) \<le> h (heap G (openSet A ! j)))) \<and>
     (\<forall>j < i.
        f (heap G (openSet A ! i)) < f (heap G (openSet A ! j)) \<or>
        (f (heap G (openSet A ! i)) = f (heap G (openSet A ! j)) \<and>
         h (heap G (openSet A ! i)) < h (heap G (openSet A ! j)))) \<and>
     (openSet A ! i = e \<longrightarrow> findPath_step e (st, A, G) = (Reached, A, G)) \<and>
     (openSet A ! i \<noteq> e \<longrightarrow>
        (\<exists>st' A' G' new. findPath_step e (st, A, G) = (st', A', G') \<and>
           closedSet A' = closedSet A @ [openSet A ! i] \<and>
           openSet A' = take i (openSet A) @ drop (Suc i) (openSet A) @ new \<and>
           distinct new \<and> set new \<inter> set (openSet A) = {} \<and>
           (case getNeighbors (heap G) (nodes G) (heap G (openSet A ! i)) of
              None \<Rightarrow> st' = Crashed \<and> new = []
            | Some ns \<Rightarrow> st' = Searching \<and> subseq new ns)))"
proof -
  let ?os = "openSet A"
  from getLowestFNode_least[OF assms, of "heap G"] obtain i where
    i: "i < length ?os" "getLowestFNode (heap G) ?os = Some (?os ! i)"
    and b: "\<forall>j < i. better (heap G (?os ! i)) (heap G (?os ! j))"
    and l: "\<forall>j < length ?os. \<not> better (heap G (?os ! j)) (heap G (?os ! i))"
    by blast
  let ?cur = "?os ! i"
  have 1: "\<forall>j < length ?os. f (heap G ?cur) < f (heap G (?os ! j)) \<or>
              (f (heap G ?cur) = f (heap G (?os ! j)) \<and> h (heap G ?cur) \<le> h (heap G (?os ! j)))"
    using l by (simp add: not_better_iff)
  have 2: "\<forall>j < i. f (heap G ?cur) < f (heap G (?os ! j)) \<or>
              (f (heap G ?cur) = f (heap G (?os ! j)) \<and> h (heap G ?cur) < h (heap G (?os ! j)))"
    using b by (simp add: better_def)
  have ne: "\<forall>j < i. ?os ! j \<noteq> ?cur"
  proof (intro allI impI)
    fix j assume "j < i"
    then have "better (heap G ?cur) (heap G (?os ! j))" using b by blast
    then show "?os ! j \<noteq> ?cur" using better_irrefl[of "heap G ?cur"] by auto
  qed
  have rm: "remove1 ?cur ?os = take i ?os @ drop (Suc i) ?os"
    by (rule remove1_nth_first[OF i(1) ne])
  have 3: "?cur = e \<longrightarrow> findPath_step e (st, A, G) = (Reached, A, G)"
    using findPath_step_goal[OF i(2)] by blast
  have 4: "?cur \<noteq> e \<longrightarrow>
        (\<exists>st' A' G' new. findPath_step e (st, A, G) = (st', A', G') \<and>
           closedSet A' = closedSet A @ [?cur] \<and>
           openSet A' = take i ?os @ drop (Suc i) ?os @ new \<and>
           distinct new \<and> set new \<inter> set ?os = {} \<and>
           (case getNeighbors (heap G) (nodes G) (heap G ?cur) of
              None \<Rightarrow> st' = Crashed \<and> new = []
            | Some ns \<Rightarrow> st' = Searching \<and> subseq new ns))"
  proof
    assume ce: "?cur \<noteq> e"
    from findPath_step_expand[OF i(2) ce, of st] obtain A2 u where
      u: "u = (\<lambda>n. n) \<or> u = (\<lambda>n. n\<lparr> isVisited := True \<rparr>)"
      and A2: "openSet A2 = remove1 ?cur ?os" "closedSet A2 = closedSet A @ [?cur]"
      and eq: "findPath_step e (st, A, G) =
        (case getNeighbors (heap (updNode G ?cur u)) (nodes (updNode G ?cur u))
                (heap (updNode G ?cur u) ?cur) of
           None \<Rightarrow> (Crashed, A2, updNode G ?cur u)
         | Some ns \<Rightarrow> (case fold (relax ?cur e) ns (A2, updNode G ?cur u) of
                        (A3, G3) \<Rightarrow> (Searching, A3, G3)))"
      by blast
    note eq' = eq[unfolded getNeighbors_marked[OF u]]
    show "\<exists>st' A' G' new. findPath_step e (st, A, G) = (st', A', G') \<and>
           closedSet A' = closedSet A @ [?cur] \<and>
           openSet A' = take i ?os @ drop (Suc i) ?os @ new \<and>
           distinct new \<and> set new \<inter> set ?os = {} \<and>
           (case getNeighbors (heap G) (nodes G) (heap G ?cur) of
              None \<Rightarrow> st' = Crashed \<and> new = []
            | Some ns \<Rightarrow> st' = Searching \<and> subseq new ns)"
    proof (cases "getNeighbors (heap G) (nodes G) (heap G ?cur)")
      case None
      have "findPath_step e (st, A, G) = (Crashed, A2, updNode G ?cur u)"
        unfolding eq' None by simp
      then show ?thesis unfolding None using A2 rm
        by (intro exI[where x = Crashed] exI[where x = A2]
              exI[where x = "updNode G ?cur u"] exI[where x = "[]"]) simp
    next
      case (Some ns)
      obtain A3 G3 where fr: "fold (relax ?cur e) ns (A2, updNode G ?cur u) = (A3, G3)"
        by (cases "fold (relax ?cur e) ns (A2, updNode G ?cur u)")
      from fold_relax_open[OF fr] obtain new where
        n: "openSet A3 = openSet A2 @ new" "closedSet A3 = closedSet A2" "distinct new"
        "set new \<inter> set (openSet A2) = {}" "set new \<inter> set (closedSet A2) = {}"
        "subseq new ns" by blast
      have st: "findPath_step e (st, A, G) = (Searching, A3, G3)"
        unfolding eq' Some using fr by simp
      have cn: "?cur \<notin> set new" using n(5) A2(2) by auto
      have dj: "set new \<inter> set ?os = {}"
      proof (rule ccontr)
        assume "set new \<inter> set ?os \<noteq> {}"
        then obtain x where x: "x \<in> set new" "x \<in> set ?os" by blast
        then have "x \<noteq> ?cur" using cn by blast
        then have "x \<in> set (remove1 ?cur ?os)" using x(2) by simp
        then show False using n(4) x(1) A2(1) by auto
      qed
      have cl: "closedSet A3 = closedSet A @ [?cur]" using n(2) A2(2) by simp
      have op: "openSet A3 = take i ?os @ drop (Suc i) ?os @ new"
        using n(1) A2(1) rm by simp
      show ?thesis unfolding Some using st cl op n(3) dj n(6)
        by (intro exI[where x = Searching] exI[where x = A3]
              exI[where x = G3] exI[where x = new]) simp
    qed
  qed
  from i(1) 1 2 3 4 show ?thesis by blast
qed

theorem findPath_step_selects_first_lowest_witness:
  "openSet (fst (snd secondRound)) \<noteq> [] \<and> openSet (fst (snd secondRound)) = [1, 2] \<and>
   f (heap (snd (snd secondRound)) 1) = f (heap (snd (snd secondRound)) 2) \<and>
   h (heap (snd (snd secondRound)) 1) = h (heap (snd (snd secondRound)) 2) \<and>
   closedSet (fst (snd (findPath_step 3 secondRound))) = [0, 1] \<and>
   openSet (fst (snd (findPath_step 3 secondRound))) = [2, 3] \<and>
   fst (findPath_step 3 (findPath_step 3 secondRound)) = Reached"
proof -
  have a: "openSet (fst (snd secondRound)) \<noteq> []" by code_simp
  have b: "openSet (fst (snd secondRound)) = [1, 2]" by code_simp
  have c: "f (heap (snd (snd secondRound)) 1) = f (heap (snd (snd secondRound)) 2)"
    "h (heap (snd (snd secondRound)) 1) = h (heap (snd (snd secondRound)) 2)"
    by code_simp+
  have d: "closedSet (fst (snd (findPath_step 3 secondRound))) = [0, 1]"
    "openSet (fst (snd (findPath_step 3 secondRound))) = [2, 3]"
    "fst (findPath_step 3 (findPath_step 3 secondRound)) = Reached"
    by code_simp+
  from findPath_step_selects_first_lowest[OF a, of "snd (snd secondRound)" 3 "fst secondRound"]
    a b c d show ?thesis by simp
qed

subsection \<open>Resetting the search state\<close>

text \<open>
  Claim C8. On a well-formed grid \<open>resetPathfinding\<close> returns; on every cell it clears
  the search fields (\<open>isVisited\<close>, \<open>isPath\<close>, \<open>g\<close>, \<open>h\<close>, \<open>f\<close>, \<open>parent\<close>) and keeps
  \<open>isWall\<close>, \<open>isStart\<close>, \<open>isEnd\<close>, \<open>weight\<close> and the position; nothing else in the
  grid changes; and a second call changes nothing at all.
\<close>

theorem resetPathfinding_clears_scratch:
  assumes "wf_grid w"
  shows "\<exists>w'. resetPathfinding w = Returns w' \<and> nodes w' = nodes w \<and> rows w' = rows w \<and>
     cols w' = cols w \<and> startNode w' = startNode w \<and> endNode w' = endNode w \<and>
     (\<forall>a \<in> set (cells w). \<not> isVisited (heap w' a) \<and> \<not> isPath (heap w' a) \<and>
        g (heap w' a) = \<infinity> \<and> h (heap w' a) = 0 \<and> f (heap w' a) = \<infinity> \<and>
        parent (heap w' a) = None \<and>
        isWall (heap w' a) = isWall (heap w a) \<and> isStart (heap w' a) = isStart (heap w a) \<and>
        isEnd (heap w' a) = isEnd (heap w a) \<and> weight (heap w' a) = weight (heap w a) \<and>
        row (heap w' a) = row (heap w a) \<and> col (heap w' a) = col (heap w a)) \<and>
     (\<forall>a. a \<notin> set (cells w) \<longrightarrow> heap w' a = heap w a) \<and>
     resetPathfinding w' = Returns w'"
proof -
  let ?body = "\<lambda>n. n\<lparr> isVisited := False, isPath := False, g := \<infinity>, h := 0, f := \<infinity>, parent := None \<rparr>"
  let ?w' = "w\<lparr> heap := (\<lambda>a. if a \<in> set (cells w) then ?body (heap w a) else heap w a) \<rparr>"
  have 1: "resetPathfinding w = Returns ?w'"
    unfolding resetPathfinding_def by (rule forEachCell_wf[OF assms])
  have wf': "wf_grid ?w'"
    by (rule wf_grid_heap_upd[OF assms]) simp
  have c': "cells ?w' = cells w" by (simp add: cells_def)
  have "resetPathfinding ?w' = Returns (?w'\<lparr> heap := (\<lambda>a. if a \<in> set (cells ?w') then ?body (heap ?w' a) else heap ?w' a) \<rparr>)"
    unfolding resetPathfinding_def by (rule forEachCell_wf[OF wf'])
  also have "(\<lambda>a. if a \<in> set (cells ?w') then ?body (heap ?w' a) else heap ?w' a) = heap ?w'"
    unfolding c' by (auto simp: fun_eq_iff)
  finally have 2: "resetPathfinding ?w' = Returns ?w'" by simp
  show ?thesis
    by (rule exI[where x = ?w'], intro conjI 1 2) simp_all
qed

text \<open>
  The grid a search has left: there cell 3 has cost 2 and parent 1, and cell 1 is marked
  visited and has \<open>h = 1\<close> and \<open>f = 2\<close>. The reset clears them and keeps the end flag of
  cell 3.
\<close>

theorem resetPathfinding_clears_scratch_witness:
  "wf_grid gridSearched \<and>
   g (heap gridSearched 3) = 2 \<and> parent (heap gridSearched 3) = Some 1 \<and>
   isVisited (heap gridSearched 1) \<and> h (heap gridSearched 1) = 1 \<and>
   f (heap gridSearched 1) = 2 \<and> isEnd (heap gridSearched 3) \<and>
   (\<exists>w'. resetPathfinding gridSearched = Returns w' \<and> nodes w' = nodes gridSearched \<and>
     g (heap w' 3) = \<infinity> \<and> parent (heap w' 3) = None \<and> \<not> isVisited (heap w' 1) \<and>
     h (heap w' 1) = 0 \<and> f (heap w' 1) = \<infinity> \<and> isEnd (heap w' 3) \<and>
     resetPathfinding w' = Returns w')"
proof -
  have wf: "wf_grid gridSearched" by code_simp
  have c: "1 \<in> set (cells gridSearched)" "3 \<in> set (cells gridSearched)" by code_simp+
  have d: "g (heap gridSearched 3) = 2" "parent (heap gridSearched 3) = Some 1"
    "isVisited (heap gridSearched 1)" "h (heap gridSearched 1) = 1"
    "f (heap gridSearched 1) = 2" "isEnd (heap gridSearched 3)"
    by code_simp+
  from resetPathfinding_clears_scratch[OF wf] obtain w' where
    w: "resetPathfinding gridSearched = Returns w'" "nodes w' = nodes gridSearched"
    "\<forall>a \<in> set (cells gridSearched). \<not> isVisited (heap w' a) \<and>
        g (heap w' a) = \<infinity> \<and> h (heap w' a) = 0 \<and> f (heap w' a) = \<infinity> \<and>
        parent (heap w' a) = None \<and> isEnd (heap w' a) = isEnd (heap gridSearched a)"
    "resetPathfinding w' = Returns w'"
    by blast
  from w(3) c d(6) have "g (heap w' 3) = \<infinity>" "parent (heap w' 3) = None"
    "\<not> isVisited (heap w' 1)" "h (heap w' 1) = 0" "f (heap w' 1) = \<infinity>" "isEnd (heap w' 3)"
    by simp_all
  with wf d w(1,2,4) show ?thesis by blast
qed

subsection \<open>Toggling an obstacle\<close>

text \<open>
  Claim C9. \<open>Node.toggleWall\<close> leaves a start or end node as it is and otherwise flips
  \<open>isWall\<close> only. The grid's toggle, \<open>handleMouseDown\<close> on a cell of a well-formed grid,
  never throws and keeps the node array, the dimensions and the endpoints; on the start
  or the end cell no node changes; on any other cell that cell's \<open>isWall\<close> is flipped,
  its sprite number \<open>wallType\<close> follows, and no other field and no other node changes.
  (The mouse-drag mode of the Grid class, which is interaction state, is set in all cases.)
\<close>

theorem toggleObstacle_guarded:
  assumes "wf_grid w" and "0 \<le> r" and "0 \<le> c" and "cellAt w (nat r) (nat c) = Some a"
  shows "toggleWall (heap w a) =
           (if isStart (heap w a) \<or> isEnd (heap w a) then heap w a
            else (heap w a)\<lparr> isWall := \<not> isWall (heap w a) \<rparr>) \<and>
         returned (handleMouseDown pick w r c) \<and>
         nodes (outGrid (handleMouseDown pick w r c)) = nodes w \<and>
         rows (outGrid (handleMouseDown pick w r c)) = rows w \<and>
         cols (outGrid (handleMouseDown pick w r c)) = cols w \<and>
         startNode (outGrid (handleMouseDown pick w r c)) = startNode w \<and>
         endNode (outGrid (handleMouseDown pick w r c)) = endNode w \<and>
         (isStart (heap w a) \<or> isEnd (heap w a) \<longrightarrow>
            heap (outGrid (handleMouseDown pick w r c)) = heap w) \<and>
         (\<not> isStart (heap w a) \<and> \<not> isEnd (heap w a) \<longrightarrow>
            (\<exists>wt. heap (outGrid (handleMouseDown pick w r c)) =
               (heap w)(a := (heap w a)\<lparr> isWall := \<not> isWall (heap w a), wallType := wt \<rparr>)))"
proof -
  have gn: "getNode w r c = Inr (Some a)"
    using getNode_wf[OF assms(1), of r c] assms(2-4) by simp
  have tw: "toggleWall (heap w a) =
           (if isStart (heap w a) \<or> isEnd (heap w a) then heap w a
            else (heap w a)\<lparr> isWall := \<not> isWall (heap w a) \<rparr>)"
    by (simp add: toggleWall_def)
  consider (s) "isStart (heap w a)" | (e) "\<not> isStart (heap w a)" "isEnd (heap w a)"
    | (n) "\<not> isStart (heap w a)" "\<not> isEnd (heap w a)" by blast
  then show ?thesis
  proof cases
    case s
    then have "handleMouseDown pick w r c = Returns (w\<lparr> mouseIsPressed := True, currentMode := StartMode \<rparr>)"
      unfolding handleMouseDown_def gn by simp
    then show ?thesis using s tw by (simp add: outGrid_def returned_def)
  next
    case e
    then have "handleMouseDown pick w r c = Returns (w\<lparr> mouseIsPressed := True, currentMode := EndMode \<rparr>)"
      unfolding handleMouseDown_def gn by simp
    then show ?thesis using e tw by (simp add: outGrid_def returned_def)
  next
    case n
    let ?wt = "if \<not> isWall (heap w a) then Some pick else None"
    have "handleMouseDown pick w r c = Returns (w\<lparr> mouseIsPressed := True, currentMode := WallMode,
       heap := (heap w)(a := (heap w a)\<lparr> isWall := \<not> isWall (heap w a), wallType := ?wt \<rparr>) \<rparr>)"
      unfolding handleMouseDown_def gn using n by (simp add: toggleWall_def updNode_def Let_def)
    then have *: "outGrid (handleMouseDown pick w r c) = w\<lparr> mouseIsPressed := True, currentMode := WallMode,
       heap := (heap w)(a := (heap w a)\<lparr> isWall := \<not> isWall (heap w a), wallType := ?wt \<rparr>) \<rparr>"
      and **: "returned (handleMouseDown pick w r c)"
      by (simp_all add: outGrid_def returned_def)
    have ex: "\<exists>wt. heap (outGrid (handleMouseDown pick w r c)) =
               (heap w)(a := (heap w a)\<lparr> isWall := \<not> isWall (heap w a), wallType := wt \<rparr>)"
      unfolding * by (rule exI[where x = ?wt]) simp
    show ?thesis using n tw ** ex unfolding * by simp
  qed
qed

theorem toggleObstacle_guarded_witness:
  "wf_grid grid22 \<and> cellAt grid22 (nat 0) (nat 1) = Some 1 \<and>
   \<not> isStart (heap grid22 1) \<and> \<not> isEnd (heap grid22 1) \<and>
   returned (handleMouseDown 2 grid22 0 1) \<and>
   (\<exists>wt. heap (outGrid (handleMouseDown 2 grid22 0 1)) =
      (heap grid22)(1 := (heap grid22 1)\<lparr> isWall := \<not> isWall (heap grid22 1), wallType := wt \<rparr>))"
proof -
  have wf: "wf_grid grid22" by code_simp
  have ca: "cellAt grid22 (nat 0) (nat 1) = Some 1" by code_simp
  have fl: "\<not> isStart (heap grid22 1)" "\<not> isEnd (heap grid22 1)" by code_simp+
  show ?thesis
    using toggleObstacle_guarded[OF wf _ _ ca, of 2] wf ca fl by simp
qed
subsection \<open>Claim C10: the returned path\<close>

text \<open>
  Claim C10, as the code has it. On a well-formed grid whose start is one of its cells,
  whenever \<open>findPath\<close> returns a result object, its path is a simple walk of the grid: it
  begins at the start and ends at the goal, consecutive nodes are orthogonally adjacent,
  every node is a cell of the grid, no node occurs twice, and no node after the first
  is an obstacle. The first node, the start, is never tested: the path is obstacle-free
  exactly when the start is no obstacle. \<open>pathLength\<close> is its length and the search
  object stores the same path.
\<close>

theorem findPath_result_is_simple_path:
  assumes "wf_grid G" "startNode G = Ref s" "endNode G = Ref e"
    and "s \<in> set (cells G)"
    and "findPath A G = Some (ReturnsResult res, A', G')"
  shows "r_path res \<noteq> [] \<and> hd (r_path res) = s \<and> last (r_path res) = e \<and>
     (\<forall>i. Suc i < length (r_path res) \<longrightarrow>
        \<bar>row (heap G (r_path res ! i)) - row (heap G (r_path res ! Suc i))\<bar> +
        \<bar>col (heap G (r_path res ! i)) - col (heap G (r_path res ! Suc i))\<bar> = 1) \<and>
     (\<forall>a \<in> set (r_path res). a \<in> set (cells G)) \<and>
     (\<forall>a \<in> set (tl (r_path res)). \<not> isWall (heap G a)) \<and>
     ((\<forall>a \<in> set (r_path res). \<not> isWall (heap G a)) \<longleftrightarrow> \<not> isWall (heap G s)) \<and>
     (is_path G s e (r_path res) \<longleftrightarrow> \<not> isWall (heap G s)) \<and>
     distinct (r_path res) \<and> walk G (r_path res) \<and>
     r_pathLength res = length (r_path res) \<and> path A' = r_path res"
proof -
  have nr: "\<not> isRunning A"
  proof
    assume "isRunning A"
    then have "findPath A G = Some (ReturnsNull, A, G)" by (simp add: findPath_def)
    then show False using assms(5) by simp
  qed
  from findPath_loop_outcome[OF assms(1), of e A s] obtain st A3 G3 where
    w: "while_option findPath_cond (findPath_step e)
            (Searching, initAStar A s, initGrid G s e) = Some (st, A3, G3)"
    and li: "loop_inv G s e (st, A3, G3)" by blast
  have fp: "findPath A G = (case st of
           Reached \<Rightarrow>
             (case reconstructPath (heap G3) e of
                None \<Rightarrow> None
              | Some p \<Rightarrow>
                  Some (ReturnsResult
                          \<lparr> r_path = p, r_visitedNodes = visitedNodes A3,
                            r_pathLength = length p,
                            r_nodesExplored = nodesExplored A3 \<rparr>,
                        A3\<lparr> path := p, isRunning := False \<rparr>, G3))
         | Searching \<Rightarrow> Some (ReturnsNull, A3\<lparr> isRunning := False \<rparr>, G3)
         | Crashed \<Rightarrow> Some (ThrowsError TypeError, A3, G3))"
    unfolding findPath_unfold[OF nr assms(2,3,1)] w by simp
  have st: "st = Reached" using fp assms(5) by (cases st) simp_all
  have si: "search_inv G s (A3, G3)" and eo: "e \<in> set (openSet A3)"
    using li st by (simp_all add: loop_inv_def)
  have es: "e \<in> seen A3" using eo by (simp add: seen_def)
  from reconstructPath_walk[OF si assms(1,4) es] obtain p where
    p: "reconstructPath (heap G3) e = Some p" "walk G p" "hd p = s" "last p = e" "distinct p"
    by blast
  have res: "r_path res = p" "r_pathLength res = length p" "path A' = p"
    using fp assms(5) unfolding st p(1) by auto
  have ne: "p \<noteq> []" using p(2) by (rule walk_nonempty)
  then have ps: "p = s # tl p" using p(3) by (cases p) simp_all
  have adj: "\<forall>i. Suc i < length p \<longrightarrow>
        \<bar>row (heap G (p ! i)) - row (heap G (p ! Suc i))\<bar> +
        \<bar>col (heap G (p ! i)) - col (heap G (p ! Suc i))\<bar> = 1"
    using walk_edges[OF p(2)] by (simp add: edge_def)
  have tl: "\<forall>a \<in> set (tl p). a \<in> set (cells G) \<and> \<not> isWall (heap G a)"
    using walk_tail_cells[of G s "tl p"] p(2) ps by auto
  have sp: "set p = insert s (set (tl p))" by (subst ps) simp
  have cl: "\<forall>a \<in> set p. a \<in> set (cells G)" unfolding sp using tl assms(4) by simp
  have tw: "\<forall>a \<in> set (tl p). \<not> isWall (heap G a)" using tl by simp
  have aw: "(\<forall>a \<in> set p. \<not> isWall (heap G a)) \<longleftrightarrow> \<not> isWall (heap G s)"
    unfolding sp using tw by simp
  have ip: "is_path G s e p \<longleftrightarrow> \<not> isWall (heap G s)"
    using p(2-4) assms(4) by (simp add: is_path_def)
  show ?thesis
    unfolding res by (intro conjI ne p(3) p(4) adj cl tw aw ip p(5) p(2) refl)
qed

theorem findPath_result_is_simple_path_witness:
  "wf_grid grid22 \<and> startNode grid22 = Ref 0 \<and> endNode grid22 = Ref 3 \<and>
   0 \<in> set (cells grid22) \<and> \<not> isWall (heap grid22 0) \<and>
   resultPath (findPath new_AStar grid22) = Some [0, 1, 3] \<and>
   distinct [0, 1, 3 :: addr] \<and> walk grid22 [0, 1, 3] \<and> is_path grid22 0 3 [0, 1, 3]"
proof -
  have h: "wf_grid grid22" "startNode grid22 = Ref 0" "endNode grid22 = Ref 3"
    "0 \<in> set (cells grid22)"
    by code_simp+
  have nw: "\<not> isWall (heap grid22 0)" by code_simp
  have rp: "resultPath (findPath new_AStar grid22) = Some [0, 1, 3]"
    by code_simp
  from resultPath_Some[OF rp] obtain res A' G' where
    r: "findPath new_AStar grid22 = Some (ReturnsResult res, A', G')"
    "r_path res = [0, 1, 3]" by blast
  from findPath_result_is_simple_path[OF h r(1)] r(2) h nw rp show ?thesis by simp
qed

text \<open>
  The claim as it is written fails on two grids that imports produce. On
  \<open>gridWalledStart\<close> the start cell 0 is an obstacle and is the first node of the returned
  path 0, 1, 3. On \<open>gridStale\<close>, left without cells by a failed import, the start and the
  end are the old node 3, and the returned path 0, 1, 3 follows the parents an earlier
  search left: its first node is not the start, and its nodes are no cells of the grid.
\<close>

theorem findPath_result_is_simple_path_counterexample:
  "fst (loadGridData (\<lambda>i. 1) grid22 (Some wallOnStart)) \<and>
   wf_grid gridWalledStart \<and> startNode gridWalledStart = Ref 0 \<and>
   endNode gridWalledStart = Ref 3 \<and>
   resultPath (findPath new_AStar gridWalledStart) = Some [0, 1, 3] \<and>
   isWall (heap gridWalledStart (hd [0, 1, 3])) \<and>
   wf_grid gridStale \<and> startNode gridStale = Ref 3 \<and> endNode gridStale = Ref 3 \<and>
   cells gridStale = [] \<and>
   resultPath (findPath new_AStar gridStale) = Some [0, 1, 3] \<and> hd [0, 1, 3] \<noteq> (3 :: addr)"
  by code_simp


end
